theory Spec2Isabelle
  imports Main "HOL-Library.AList" "HOL-Library.Sublist"
begin

section \<open>Strings of the page scripts\<close>

text \<open>
  The scripts work on JavaScript strings. They are modelled as \<open>string\<close>: a sequence of
  code units, restricted to the units below 256 (the Latin-1 range). The character classes
  below are the ones of the ECMAScript built-ins, cut down to that range.
\<close>

text \<open>White space of \<open>String.prototype.trim\<close> and of the regular expression class \<open>\s\<close>:
  TAB, LF, VT, FF, CR, SPACE and NBSP.\<close>

definition isWhiteSpace :: "char \<Rightarrow> bool" where
  "isWhiteSpace c = (c \<in> set [CHR 0x09, CHR 0x0A, CHR 0x0B, CHR 0x0C, CHR 0x0D, CHR 0x20, CHR 0xA0])"

definition trim :: "string \<Rightarrow> string" where
  "trim s = rev (dropWhile isWhiteSpace (rev (dropWhile isWhiteSpace s)))"

text \<open>\<open>String.prototype.toLowerCase\<close>: A-Z and the upper-case letters of Latin-1
  (0xC0 to 0xDE without the multiplication sign 0xD7) move up by 32.\<close>

definition toLowerChar :: "char \<Rightarrow> char" where
  "toLowerChar c = (let n = (of_char c :: nat) in
     if (65 \<le> n \<and> n \<le> 90) \<or> (192 \<le> n \<and> n \<le> 222 \<and> n \<noteq> 215)
     then char_of (n + 32) else c)"

definition toLowerCase :: "string \<Rightarrow> string" where
  "toLowerCase s = map toLowerChar s"

text \<open>\<open>s.indexOf(c)\<close> for a single character: \<open>None\<close> stands for \<open>-1\<close>.\<close>

definition indexOf :: "char \<Rightarrow> string \<Rightarrow> nat option" where
  "indexOf c s = (if c \<in> set s then Some (length (takeWhile (\<lambda>x. x \<noteq> c) s)) else None)"

text \<open>\<open>raw.split(/\r?\n/)\<close>: the text is cut at every line feed, and a carriage return
  right before the line feed belongs to the separator. The first argument is the piece
  read so far.\<close>

fun splitLines :: "string \<Rightarrow> string \<Rightarrow> string list" where
  "splitLines cur [] = [cur]"
| "splitLines cur [c] = (if c = CHR 0x0A then [cur, []] else [cur @ [c]])"
| "splitLines cur (c # d # cs) =
     (if c = CHR 0x0A then cur # splitLines [] (d # cs)
      else if c = CHR 0x0D \<and> d = CHR 0x0A then cur # splitLines [] cs
      else splitLines (cur @ [c]) (d # cs))"

section \<open>Header parsing (Fuzzer.tsx, GraphQLPage.tsx)\<close>

text \<open>\<open>type HeaderMap = Record<string, string>\<close>: an object used as a dictionary. It is an
  association list with distinct keys; \<open>headers[key] = value\<close> is \<open>AList.update\<close>, which
  overwrites the value of a key that is present and appends a new key otherwise. The
  prototype chain of JavaScript objects is not part of the model.\<close>

type_synonym HeaderMap = "(string \<times> string) list"

text \<open>The test \<open>/^(GET|POST|PUT|PATCH|DELETE|HEAD|OPTIONS)\s+/i\<close>: a method name in any
  letter case at the start, followed by at least one white space character.\<close>

definition httpMethods :: "string list" where
  "httpMethods = [''get'', ''post'', ''put'', ''patch'', ''delete'', ''head'', ''options'']"

definition isRequestLine :: "string \<Rightarrow> bool" where
  "isRequestLine s = list_ex (\<lambda>m. toLowerCase (take (length m) s) = m \<and>
       (case drop (length m) s of [] \<Rightarrow> False | c # _ \<Rightarrow> isWhiteSpace c)) httpMethods"

text \<open>The body of the loop of \<open>parseRawHeaders\<close> for one line: \<open>None\<close> where the loop
  continues without an assignment, \<open>Some (key, value)\<close> where it reaches
  \<open>headers[key] = value\<close>.\<close>

definition headerLine :: "string \<Rightarrow> (string \<times> string) option" where
  "headerLine line =
     (let trimmed = trim line in
      if trimmed = [] then None
      else if isRequestLine trimmed then None
      else case indexOf (CHR '':'') trimmed of
             None \<Rightarrow> None
           | Some idx \<Rightarrow>
               (let key = trim (take idx trimmed);
                    val = trim (drop (idx + 1) trimmed)
                in if key = [] then None
                   else if toLowerCase key = ''content-length'' then None
                   else Some (key, val)))"

definition assign :: "HeaderMap \<Rightarrow> string \<times> string \<Rightarrow> HeaderMap" where
  "assign headers kv = AList.update (fst kv) (snd kv) headers"

definition parseRawHeaders :: "string \<Rightarrow> HeaderMap" where
  "parseRawHeaders raw =
     fold (\<lambda>line headers. case headerLine line of None \<Rightarrow> headers | Some kv \<Rightarrow> assign headers kv)
          (splitLines [] raw) []"


text \<open>\<open>mergeDefaultJsonContentType\<close>: \<open>Object.keys(headers).find\<close> is \<open>find\<close> on the keys;
  \<open>!ctKey\<close> holds for \<open>undefined\<close> and for the empty string. The object literal
  \<open>{ 'Content-Type': 'application/json', ...headers }\<close> starts with the default and then
  copies every entry of \<open>headers\<close> over it.\<close>

definition mergeDefaultJsonContentType :: "HeaderMap \<Rightarrow> HeaderMap" where
  "mergeDefaultJsonContentType headers =
     (let ctKey = find (\<lambda>k. toLowerCase k = ''content-type'') (map fst headers) in
      if ctKey = None \<or> ctKey = Some []
      then fold (\<lambda>kv acc. assign acc kv) headers [(''Content-Type'', ''application/json'')]
      else headers)"

section \<open>Session wordlist (GraphQLPage.tsx)\<close>

text \<open>\<open>s.split(re)\<close> for a regular expression \<open>re\<close> of the shape \<open>[class]+\<close>: the string
  is cut at every maximal run of characters of the class; a run at the start or at the end
  leaves an empty piece there. The second argument is the piece read so far.\<close>

function splitRuns :: "(char \<Rightarrow> bool) \<Rightarrow> string \<Rightarrow> string \<Rightarrow> string list" where
  "splitRuns P cur [] = [cur]"
| "splitRuns P cur (c # cs) =
     (if P c then cur # splitRuns P [] (dropWhile P cs) else splitRuns P (cur @ [c]) cs)"
  by pat_completeness auto
termination
  by (relation "measure (\<lambda>(P, cur, s). length s)")
     (auto simp: less_Suc_eq_le length_dropWhile_le)

definition isUpperAZ :: "char \<Rightarrow> bool" where
  "isUpperAZ c = (let n = (of_char c :: nat) in 65 \<le> n \<and> n \<le> 90)"

definition isLowerOrDigit :: "char \<Rightarrow> bool" where
  "isLowerOrDigit c = (let n = (of_char c :: nat) in (97 \<le> n \<and> n \<le> 122) \<or> (48 \<le> n \<and> n \<le> 57))"

definition isAlphaNum :: "char \<Rightarrow> bool" where
  "isAlphaNum c = (isUpperAZ c \<or> isLowerOrDigit c)"

text \<open>\<open>piece.replace(/([a-z0-9])([A-Z])/g, '$1 $2')\<close>: a space goes between a lower-case
  letter or digit and the upper-case letter after it; the search goes on behind the match.\<close>

fun insertCamelSpaces :: "string \<Rightarrow> string" where
  "insertCamelSpaces (a # b # cs) =
     (if isLowerOrDigit a \<and> isUpperAZ b then a # CHR '' '' # b # insertCamelSpaces cs
      else a # insertCamelSpaces (b # cs))"
| "insertCamelSpaces cs = cs"

text \<open>The class \<open>[\s_\-]\<close>.\<close>

definition isWordSep :: "char \<Rightarrow> bool" where
  "isWordSep c = (isWhiteSpace c \<or> c = CHR ''_'' \<or> c = CHR ''-'')"

definition splitWordsTokenize :: "string \<Rightarrow> string list" where
  "splitWordsTokenize token =
     (if token = [] then []
      else concat (map (\<lambda>piece.
             if piece = [] then []
             else map toLowerCase
                    (filter (\<lambda>sub. sub \<noteq> []) (splitRuns isWordSep [] (insertCamelSpaces piece))))
           (splitRuns (\<lambda>c. \<not> isAlphaNum c) [] token)))"

text \<open>\<open>addWord(set, w)\<close> changes the \<open>Set<string>\<close> in place; the model returns the new set.\<close>

definition addWord :: "string set \<Rightarrow> string \<Rightarrow> string set" where
  "addWord wset w =
     (if w = [] then wset
      else fold insert (splitWordsTokenize w) (insert (toLowerCase w) wset))"

section \<open>Performance settings of the fuzzer (Fuzzer.tsx)\<close>

text \<open>\<open>parseInt(s)\<close> without a radix: leading white space, an optional sign, an optional
  \<open>0x\<close> prefix that selects base 16, then the longest run of digits of the base. \<open>None\<close>
  stands for \<open>NaN\<close>. The value is the exact integer (JavaScript rounds it to a double).\<close>

definition digitVal :: "char \<Rightarrow> nat option" where
  "digitVal c = (let n = (of_char c :: nat) in
     if 48 \<le> n \<and> n \<le> 57 then Some (n - 48)
     else if 97 \<le> n \<and> n \<le> 122 then Some (n - 87)
     else if 65 \<le> n \<and> n \<le> 90 then Some (n - 55)
     else None)"

definition isDigitOf :: "nat \<Rightarrow> char \<Rightarrow> bool" where
  "isDigitOf radix c = (case digitVal c of None \<Rightarrow> False | Some d \<Rightarrow> d < radix)"

definition digitsValue :: "nat \<Rightarrow> string \<Rightarrow> nat" where
  "digitsValue radix ds = foldl (\<lambda>a c. a * radix + (case digitVal c of None \<Rightarrow> 0 | Some d \<Rightarrow> d)) 0 ds"

definition parseInt :: "string \<Rightarrow> int option" where
  "parseInt s =
     (let s1 = dropWhile isWhiteSpace s;
          neg = (take 1 s1 = ''-'');
          s2 = (if take 1 s1 = ''-'' \<or> take 1 s1 = ''+'' then drop 1 s1 else s1);
          hex = (take 2 s2 = ''0x'' \<or> take 2 s2 = ''0X'');
          radix = (if hex then 16 else 10);
          s3 = (if hex then drop 2 s2 else s2);
          ds = takeWhile (isDigitOf radix) s3
      in if ds = [] then None
         else Some ((if neg then - 1 else 1) * int (digitsValue radix ds)))"

text \<open>\<open>x || d\<close> on the result of \<open>parseInt\<close>: \<open>NaN\<close> and zero are falsy.\<close>

definition orDefault :: "int option \<Rightarrow> int \<Rightarrow> int" where
  "orDefault x d = (case x of None \<Rightarrow> d | Some n \<Rightarrow> if n = 0 then d else n)"

text \<open>The \<open>onChange\<close> handlers of the two number inputs: the value handed to \<open>setThreads\<close>
  and to \<open>setDelayMs\<close> for the text \<open>v\<close> of the input.\<close>

definition threadsOnChange :: "string \<Rightarrow> int" where
  "threadsOnChange v = max 1 (min 50 (orDefault (parseInt v) 1))"

definition delayOnChange :: "string \<Rightarrow> int" where
  "delayOnChange v = max 0 (orDefault (parseInt v) 0)"

section \<open>JSON texts\<close>

text \<open>The value that \<open>JSON.parse\<close> reads. A decoded string is a list of code units (an
  escape \<open>\uXXXX\<close> can name any unit up to 0xFFFF); a number keeps its digits as written;
  an object keeps its members in the order of the text.\<close>

datatype json =
    JNull
  | JBool bool
  | JNumber string
  | JString "nat list"
  | JArray "json list"
  | JObject "(nat list \<times> json) list"

definition units :: "string \<Rightarrow> nat list" where
  "units s = map of_char s"

definition isJsonWs :: "char \<Rightarrow> bool" where
  "isJsonWs c = (c \<in> set [CHR 0x20, CHR 0x09, CHR 0x0A, CHR 0x0D])"

definition skipWs :: "string \<Rightarrow> string" where
  "skipWs s = dropWhile isJsonWs s"

definition hex4 :: "string \<Rightarrow> nat option" where
  "hex4 ds = (if length ds = 4 \<and> list_all (isDigitOf 16) ds then Some (digitsValue 16 ds) else None)"

text \<open>The character after a backslash, other than \<open>u\<close>.\<close>

definition escapeUnit :: "char \<Rightarrow> nat option" where
  "escapeUnit e =
     (if e = CHR 0x22 then Some 0x22
      else if e = CHR 0x5C then Some 0x5C
      else if e = CHR ''/'' then Some 0x2F
      else if e = CHR ''b'' then Some 0x08
      else if e = CHR ''f'' then Some 0x0C
      else if e = CHR ''n'' then Some 0x0A
      else if e = CHR ''r'' then Some 0x0D
      else if e = CHR ''t'' then Some 0x09
      else None)"

text \<open>The characters of a string behind its opening quote, up to the closing quote.\<close>

fun parseChars :: "nat list \<Rightarrow> string \<Rightarrow> (nat list \<times> string) option" where
  "parseChars acc [] = None"
| "parseChars acc [c] = (if c = CHR 0x22 then Some (acc, []) else None)"
| "parseChars acc (c # e # es) =
     (if c = CHR 0x22 then Some (acc, e # es)
      else if c = CHR 0x5C then
        (if e = CHR ''u'' then
           (case hex4 (take 4 es) of
              None \<Rightarrow> None
            | Some n \<Rightarrow> parseChars (acc @ [n]) (drop 4 es))
         else
           (case escapeUnit e of
              None \<Rightarrow> None
            | Some n \<Rightarrow> parseChars (acc @ [n]) es))
      else if (of_char c :: nat) < 0x20 then None
      else parseChars (acc @ [of_char c]) (e # es))"

text \<open>A number: \<open>-?(0|[1-9][0-9]*)(\.[0-9]+)?([eE][+-]?[0-9]+)?\<close>. Each step returns the
  characters it has read and the rest.\<close>

definition isDigit :: "char \<Rightarrow> bool" where
  "isDigit c = isDigitOf 10 c"

definition numInt :: "string \<Rightarrow> (string \<times> string) option" where
  "numInt s =
     (case s of
        [] \<Rightarrow> None
      | d # r \<Rightarrow>
          if d = CHR ''0'' then Some ([d], r)
          else if isDigit d then Some (d # takeWhile isDigit r, dropWhile isDigit r)
          else None)"

definition numFrac :: "string \<Rightarrow> (string \<times> string) option" where
  "numFrac s =
     (if take 1 s = ''.'' then
        (if takeWhile isDigit (drop 1 s) = [] then None
         else Some (CHR ''.'' # takeWhile isDigit (drop 1 s), dropWhile isDigit (drop 1 s)))
      else Some ([], s))"

definition numExp :: "string \<Rightarrow> (string \<times> string) option" where
  "numExp s =
     (if take 1 s = ''e'' \<or> take 1 s = ''E'' then
        (let r = drop 1 s;
             sgn = (if take 1 r = ''+'' \<or> take 1 r = ''-'' then take 1 r else []);
             r1 = drop (length sgn) r
         in if takeWhile isDigit r1 = [] then None
            else Some (take 1 s @ sgn @ takeWhile isDigit r1, dropWhile isDigit r1))
      else Some ([], s))"

definition parseNumber :: "string \<Rightarrow> (string \<times> string) option" where
  "parseNumber s =
     (let sgn = (if take 1 s = ''-'' then ''-'' else []) in
      case numInt (drop (length sgn) s) of
        None \<Rightarrow> None
      | Some (i, r1) \<Rightarrow>
          (case numFrac r1 of
             None \<Rightarrow> None
           | Some (f, r2) \<Rightarrow>
               (case numExp r2 of
                  None \<Rightarrow> None
                | Some (e, r3) \<Rightarrow> Some (sgn @ i @ f @ e, r3))))"

text \<open>A value, the elements of an array behind \<open>[\<close> or a comma, and the members of an
  object behind \<open>{\<close> or a comma. The first argument bounds the number of nested calls; the
  entry point below starts with more than any text of that length needs.\<close>

fun parseValue :: "nat \<Rightarrow> string \<Rightarrow> (json \<times> string) option"
  and parseElements :: "nat \<Rightarrow> json list \<Rightarrow> string \<Rightarrow> (json \<times> string) option"
  and parseMembers :: "nat \<Rightarrow> (nat list \<times> json) list \<Rightarrow> string \<Rightarrow> (json \<times> string) option"
where
  "parseValue 0 s = None"
| "parseValue (Suc n) s =
     (case skipWs s of
        [] \<Rightarrow> None
      | c # cs \<Rightarrow>
          if c = CHR ''{'' then
            (if take 1 (skipWs cs) = ''}'' then Some (JObject [], drop 1 (skipWs cs))
             else parseMembers n [] cs)
          else if c = CHR ''['' then
            (if take 1 (skipWs cs) = '']'' then Some (JArray [], drop 1 (skipWs cs))
             else parseElements n [] cs)
          else if c = CHR 0x22 then
            (case parseChars [] cs of None \<Rightarrow> None | Some (str, r) \<Rightarrow> Some (JString str, r))
          else if take 4 (c # cs) = ''true'' then Some (JBool True, drop 4 (c # cs))
          else if take 5 (c # cs) = ''false'' then Some (JBool False, drop 5 (c # cs))
          else if take 4 (c # cs) = ''null'' then Some (JNull, drop 4 (c # cs))
          else (case parseNumber (c # cs) of None \<Rightarrow> None | Some (lexeme, r) \<Rightarrow> Some (JNumber lexeme, r)))"
| "parseElements 0 acc s = None"
| "parseElements (Suc n) acc s =
     (case parseValue n s of
        None \<Rightarrow> None
      | Some (v, r) \<Rightarrow>
          if take 1 (skipWs r) = '','' then parseElements n (acc @ [v]) (drop 1 (skipWs r))
          else if take 1 (skipWs r) = '']'' then Some (JArray (acc @ [v]), drop 1 (skipWs r))
          else None)"
| "parseMembers 0 acc s = None"
| "parseMembers (Suc n) acc s =
     (if take 1 (skipWs s) = [CHR 0x22] then
        (case parseChars [] (drop 1 (skipWs s)) of
           None \<Rightarrow> None
         | Some (k, r1) \<Rightarrow>
             if take 1 (skipWs r1) = '':'' then
               (case parseValue n (drop 1 (skipWs r1)) of
                  None \<Rightarrow> None
                | Some (v, r3) \<Rightarrow>
                    if take 1 (skipWs r3) = '','' then parseMembers n (acc @ [(k, v)]) (drop 1 (skipWs r3))
                    else if take 1 (skipWs r3) = ''}'' then Some (JObject (acc @ [(k, v)]), drop 1 (skipWs r3))
                    else None)
             else None)
      else None)"

text \<open>\<open>JSON.parse(text)\<close>: \<open>None\<close> where it throws a \<open>SyntaxError\<close>.\<close>

definition JSON_parse :: "string \<Rightarrow> json option" where
  "JSON_parse text =
     (case parseValue (2 * length text + 2) text of
        None \<Rightarrow> None
      | Some (v, r) \<Rightarrow> if skipWs r = [] then Some v else None)"

section \<open>The extended fuzzer (Fuzzer.tsx)\<close>

subsection \<open>Data\<close>

text \<open>\<open>interface ReplacementMarker { text; from; to }\<close>.\<close>

record ReplacementMarker =
  m_text :: string
  m_from :: int
  m_to :: int

text \<open>The object \<open>{ query, variables }\<close> that is handed to \<open>JSON.stringify\<close>. The model keeps
  the object in place of its serialisation.\<close>

record RequestBody =
  rb_query :: string
  rb_variables :: json

text \<open>\<open>interface FuzzResult\<close>. \<open>requestBody\<close> is \<open>None\<close> for the empty string of the
  error rows and \<open>Some b\<close> for the serialisation of \<open>b\<close>.\<close>

record FuzzResult =
  requestNum :: nat
  statusCode :: string
  contentLength :: string
  timeMs :: int
  requestBody :: "RequestBody option"
  responseBody :: string
  responseHeaders :: HeaderMap
  wordlistItem :: string

datatype tab = ConfigTab | ResultsTab

text \<open>The \<open>useState\<close> cells of the component that the run reads or writes.\<close>

record Fuzzer =
  url :: string
  headersRaw :: string
  query :: string
  variables :: string
  useProxy :: bool
  proxyUrl :: string
  wordlistText :: string
  replacementMarker :: "ReplacementMarker option"
  threads :: int
  delayMs :: int
  isRunning :: bool
  results :: "FuzzResult list"
  progressCount :: nat
  activeTab :: tab

text \<open>An exception value: \<open>err.name\<close> and \<open>err.message\<close>.\<close>

record jsError =
  errName :: string
  errMessage :: string

text \<open>A promise that has settled, or a call that has returned or thrown.\<close>

datatype 'a settled = Fulfilled 'a | Rejected jsError

subsection \<open>The network and the user\<close>

text \<open>What \<open>fetch\<close> is called with: the address, the headers, and the body of the request to
  the target. On the proxy route the address is the proxy and the target address, headers
  and body travel in the envelope \<open>{ url, method: 'POST', headers, body }\<close>.\<close>

record FetchCall =
  fc_address :: string
  fc_viaProxy :: bool
  fc_target :: string
  fc_headers :: HeaderMap
  fc_body :: RequestBody

text \<open>A response on the direct route, once \<open>response.text()\<close> has been read.\<close>

record DirectResponse =
  dr_status :: nat
  dr_text :: string
  dr_headers :: "(string \<times> string) list"

text \<open>The object that \<open>proxyRes.json()\<close> yields, typed as the wire protocol of the proxy
  has it: each member is present with a value of its type or absent.\<close>

record ProxySummary =
  sm_error :: "string option"
  sm_status :: "int option"
  sm_body :: "string option"
  sm_headers :: "HeaderMap option"

text \<open>Everything outside the component. \<open>directFetch\<close> and \<open>proxyFetch\<close> say how the request
  with a given number settles (a rejection of \<open>fetch\<close>, of \<open>text()\<close> or of \<open>json()\<close> is
  \<open>Inl\<close>); \<open>elapsedMs\<close> is the rounded time measured for it; \<open>signalAborted n\<close> says whether
  the user has pressed Stop when the loop tests \<open>controller.signal.aborted\<close> after \<open>n\<close>
  requests have been handed out; \<open>syntaxErrorMessage\<close> is the text of the \<open>SyntaxError\<close>
  that \<open>JSON.parse\<close> throws.\<close>

record World =
  directFetch :: "nat \<Rightarrow> FetchCall \<Rightarrow> jsError + DirectResponse"
  proxyFetch :: "nat \<Rightarrow> FetchCall \<Rightarrow> jsError + ProxySummary"
  elapsedMs :: "nat \<Rightarrow> int"
  signalAborted :: "nat \<Rightarrow> bool"
  syntaxErrorMessage :: "string \<Rightarrow> string"

subsection \<open>Helpers\<close>

text \<open>\<open>Number.prototype.toString\<close> on an integer.\<close>

function showNat :: "nat \<Rightarrow> string" where
  "showNat n = (if n < 10 then [''0123456789'' ! n] else showNat (n div 10) @ [''0123456789'' ! (n mod 10)])"
  by pat_completeness auto
termination
  by (relation "measure id") auto

definition showInt :: "int \<Rightarrow> string" where
  "showInt i = (if i < 0 then CHR ''-'' # showNat (nat (- i)) else showNat (nat i))"

text \<open>\<open>s.substring(start, end)\<close>: both positions are clamped to the string and swapped when
  they come in the wrong order; \<open>s.substring(start)\<close> ends at the length.\<close>

definition substring :: "string \<Rightarrow> int \<Rightarrow> int \<Rightarrow> string" where
  "substring s start end =
     (let len = int (length s);
          a = min (max start 0) len;
          b = min (max end 0) len
      in take (nat (max a b - min a b)) (drop (nat (min a b)) s))"

definition substringFrom :: "string \<Rightarrow> int \<Rightarrow> string" where
  "substringFrom s start = substring s start (int (length s))"

definition parseWordlist :: "string \<Rightarrow> string list" where
  "parseWordlist txt = filter (\<lambda>line. length line > 0) (map trim (splitLines [] txt))"

definition replaceTextInQuery :: "string \<Rightarrow> ReplacementMarker \<Rightarrow> string \<Rightarrow> string" where
  "replaceTextInQuery q marker replacement =
     substring q 0 (m_from marker) @ replacement @ substringFrom q (m_to marker)"

subsection \<open>One request\<close>

text \<open>The query of the iteration: lines 150 to 154 of \<open>sendSingleRequest\<close>.\<close>

definition currentQuery :: "Fuzzer \<Rightarrow> string \<Rightarrow> string" where
  "currentQuery st word =
     (case replacementMarker st of
        None \<Rightarrow> query st
      | Some marker \<Rightarrow> replaceTextInQuery (query st) marker word)"

text \<open>The \<open>catch\<close> block of \<open>sendSingleRequest\<close>.\<close>

definition catchBlock :: "World \<Rightarrow> nat \<Rightarrow> string \<Rightarrow> jsError \<Rightarrow> FuzzResult settled" where
  "catchBlock w n word err =
     (if errName err = ''AbortError'' then Rejected err
      else Fulfilled \<lparr> requestNum = n,
             statusCode = ''Error: '' @ (if errMessage err = [] then ''Unknown'' else errMessage err),
             contentLength = ''0'',
             timeMs = elapsedMs w n,
             requestBody = None,
             responseBody = [],
             responseHeaders = [],
             wordlistItem = word \<rparr>)"

text \<open>The call of \<open>fetch\<close> that the request makes once its body is built.\<close>

definition fetchCall :: "Fuzzer \<Rightarrow> RequestBody \<Rightarrow> FetchCall" where
  "fetchCall st body =
     \<lparr> fc_address = (if useProxy st then proxyUrl st else url st),
       fc_viaProxy = useProxy st,
       fc_target = url st,
       fc_headers = mergeDefaultJsonContentType (parseRawHeaders (headersRaw st)),
       fc_body = body \<rparr>"

definition sendSingleRequest :: "Fuzzer \<Rightarrow> World \<Rightarrow> nat \<Rightarrow> string \<Rightarrow> FuzzResult settled" where
  "sendSingleRequest st w n word =
     (case JSON_parse (if variables st = [] then ''{}'' else variables st) of
        None \<Rightarrow>
          catchBlock w n word
            \<lparr> errName = ''SyntaxError'',
              errMessage = syntaxErrorMessage w (if variables st = [] then ''{}'' else variables st) \<rparr>
      | Some vars \<Rightarrow>
          (let body = \<lparr> rb_query = currentQuery st word, rb_variables = vars \<rparr> in
           if useProxy st then
             (case proxyFetch w n (fetchCall st body) of
                Inl err \<Rightarrow> catchBlock w n word err
              | Inr summary \<Rightarrow>
                  (if sm_error summary \<noteq> None \<and> sm_error summary \<noteq> Some [] then
                     Fulfilled \<lparr> requestNum = n,
                       statusCode = ''Proxy Error: '' @ the (sm_error summary),
                       contentLength = ''0'',
                       timeMs = elapsedMs w n,
                       requestBody = Some body,
                       responseBody = [],
                       responseHeaders = [],
                       wordlistItem = word \<rparr>
                   else
                     (let responseBodyStr = (case sm_body summary of None \<Rightarrow> [] | Some b \<Rightarrow> b) in
                      Fulfilled \<lparr> requestNum = n,
                        statusCode = (case sm_status summary of None \<Rightarrow> ''Unknown'' | Some c \<Rightarrow> showInt c),
                        contentLength = showNat (length responseBodyStr),
                        timeMs = elapsedMs w n,
                        requestBody = Some body,
                        responseBody = responseBodyStr,
                        responseHeaders = (case sm_headers summary of None \<Rightarrow> [] | Some h \<Rightarrow> h),
                        wordlistItem = word \<rparr>)))
           else
             (case directFetch w n (fetchCall st body) of
                Inl err \<Rightarrow> catchBlock w n word err
              | Inr response \<Rightarrow>
                  Fulfilled \<lparr> requestNum = n,
                    statusCode = showNat (dr_status response),
                    contentLength = showNat (length (dr_text response)),
                    timeMs = elapsedMs w n,
                    requestBody = Some body,
                    responseBody = dr_text response,
                    responseHeaders = fold (\<lambda>kv acc. assign acc kv) (dr_headers response) [],
                    wordlistItem = word \<rparr>)))"

subsection \<open>The run\<close>

text \<open>The variables of \<open>startFuzzing\<close> while it runs: the list last handed to \<open>setResults\<close>
  and the count last handed to \<open>setProgressCount\<close>, \<open>requestCountRef.current\<close>, the local
  \<open>resultMap\<close> and \<open>processedCount\<close> of the concurrent branch, and the exception that has
  left the loop, if any. Two traces record what an observer sees: every list handed to
  \<open>setResults\<close>, and every group of calls of \<open>sendSingleRequest\<close> made without waiting
  in between, as pairs of request number and word.\<close>

record Run =
  shown :: "FuzzResult list"
  progress :: nat
  requestCount :: nat
  resultMap :: "nat \<rightharpoonup> FuzzResult"
  processedCount :: nat
  escaped :: "jsError option"
  displays :: "FuzzResult list list"
  handedOut :: "(nat \<times> string) list list"

definition initialRun :: Run where
  "initialRun =
     \<lparr> shown = [], progress = 0, requestCount = 0, resultMap = Map.empty, processedCount = 0,
       escaped = None, displays = [], handedOut = [] \<rparr>"

text \<open>The sequential branch, \<open>for (const word of wordlist)\<close>: what one pass does to the
  variables when the request is fulfilled, what happens when it is rejected and the
  exception leaves the loop, and the loop. The delay at the end of a pass changes no
  variable.\<close>

definition recordResult :: "Run \<Rightarrow> nat \<times> string \<Rightarrow> FuzzResult \<Rightarrow> Run" where
  "recordResult r call result =
     r \<lparr> requestCount := fst call,
         handedOut := handedOut r @ [[call]],
         shown := shown r @ [result],
         displays := displays r @ [shown r @ [result]],
         progress := progress r + 1 \<rparr>"

definition leaveLoop :: "Run \<Rightarrow> nat \<times> string \<Rightarrow> jsError \<Rightarrow> Run" where
  "leaveLoop r call err =
     r \<lparr> requestCount := fst call,
         handedOut := handedOut r @ [[call]],
         escaped := Some err \<rparr>"

fun seqLoop :: "Fuzzer \<Rightarrow> World \<Rightarrow> string list \<Rightarrow> Run \<Rightarrow> Run" where
  "seqLoop st w [] r = r"
| "seqLoop st w (word # rest) r =
     (if signalAborted w (requestCount r) then r
      else
        (case sendSingleRequest st w (requestCount r + 1) word of
           Rejected err \<Rightarrow> leaveLoop r (requestCount r + 1, word) err
         | Fulfilled result \<Rightarrow> seqLoop st w rest (recordResult r (requestCount r + 1, word) result)))"

text \<open>The callback of \<open>batchResults.forEach\<close>.\<close>

definition processSettled :: "FuzzResult settled \<Rightarrow> Run \<Rightarrow> Run" where
  "processSettled promiseResult r =
     (case promiseResult of
        Fulfilled result \<Rightarrow>
          r \<lparr> resultMap := (resultMap r)(requestNum result \<mapsto> result),
              processedCount := processedCount r + 1 \<rparr>
      | Rejected err \<Rightarrow> r)"

text \<open>The inner loop \<open>for (let j = 1; j <= processedCount; j++)\<close> that builds
  \<open>orderedResults\<close>.\<close>

definition orderedResults :: "Run \<Rightarrow> FuzzResult list" where
  "orderedResults r = List.map_filter (resultMap r) [1..<processedCount r + 1]"

text \<open>The concurrent branch, \<open>for (let i = 0; i < wordlist.length; i += threads)\<close>:
  first the body of one pass for the batch that starts at \<open>i\<close>, then the loop.
  \<open>Promise.allSettled\<close> yields the outcomes in the order of the promises it was given,
  whatever the order in which they settle. The loop need not end (a step of 0 never
  advances), so the result is optional and \<open>None\<close> stands for a loop that does not return.\<close>

definition batchStep :: "Fuzzer \<Rightarrow> World \<Rightarrow> string list \<Rightarrow> nat \<Rightarrow> nat \<Rightarrow> Run \<Rightarrow> Run" where
  "batchStep st w wordlist n i r =
     (let batch = take n (drop i wordlist);
          calls = map (\<lambda>(batchIndex, word). (i + batchIndex + 1, word)) (enumerate 0 batch);
          batchResults = map (\<lambda>(num, word). sendSingleRequest st w num word) calls;
          r1 = fold processSettled batchResults r
      in r1 \<lparr> shown := orderedResults r1,
               progress := processedCount r1,
               displays := displays r1 @ [orderedResults r1],
               handedOut := handedOut r1 @ [calls] \<rparr>)"

partial_function (option) batchLoop ::
  "Fuzzer \<Rightarrow> World \<Rightarrow> string list \<Rightarrow> nat \<Rightarrow> nat \<Rightarrow> Run \<Rightarrow> Run option" where
  "batchLoop st w wordlist n i r =
     (if i < length wordlist then
        (if signalAborted w i then Some r
         else batchLoop st w wordlist n (i + n) (batchStep st w wordlist n i r))
      else Some r)"

declare batchLoop.simps [code]

text \<open>\<open>startFuzzing\<close>, with the final state of the component and the run. The two early
  returns leave the state as it is. A thread count below 1 is never stored by the input
  handler; the model gives \<open>None\<close> for it.\<close>

definition finish :: "Fuzzer \<Rightarrow> Run \<Rightarrow> Fuzzer \<times> Run" where
  "finish st r =
     (st \<lparr> isRunning := False, results := shown r, progressCount := progress r,
           activeTab := ResultsTab \<rparr>, r)"

definition startFuzzing :: "Fuzzer \<Rightarrow> World \<Rightarrow> (Fuzzer \<times> Run) option" where
  "startFuzzing st w =
     (let wordlist = parseWordlist (wordlistText st) in
      if wordlist = [] then Some (st, initialRun)
      else if replacementMarker st = None then Some (st, initialRun)
      else if threads st = 1 then Some (finish st (seqLoop st w wordlist initialRun))
      else if 1 < threads st then
        map_option (finish st) (batchLoop st w wordlist (nat (threads st)) 0 initialRun)
      else None)"

section \<open>The forwarding proxy (server/proxy.mjs)\<close>

text \<open>What the target answers to the relayed call: \<open>res.statusCode\<close>, \<open>res.statusMessage\<close>,
  \<open>res.headers\<close> (a value is a string, a list of strings or \<open>undefined\<close>) and the body.\<close>

datatype headerValue = Single string | Multi "string list" | Undefined

record UpstreamResponse =
  up_statusCode :: "nat option"
  up_statusMessage :: "string option"
  up_headers :: "(string \<times> headerValue) list"
  up_text :: string

text \<open>The request that reaches the server, and what lies outside the handler: \<open>readBody\<close>
  yields the text of the request or fails; \<open>relay payload\<close> is the outcome of preparing and
  making the outbound call for the parsed payload, either the answer of the target or the
  exception on the way (a bad address, a refused connection, a timeout); the last two
  fields are the messages of the exceptions of the platform.\<close>

record ProxyRequest =
  pq_method :: string
  pq_url :: string
  pq_body :: "jsError + string"

record ProxyWorld =
  relay :: "json \<Rightarrow> jsError + UpstreamResponse"
  parseErrorText :: "string \<Rightarrow> string"
  nullAccessText :: string

text \<open>The response of the server: the status code and the value given to
  \<open>JSON.stringify\<close> for the body (\<open>None\<close> for \<open>res.end()\<close> without a body).\<close>

record ProxyResponse =
  px_statusCode :: nat
  px_json :: "json option"

text \<open>\<open>Array.prototype.join(', ')\<close>.\<close>

fun joinComma :: "string list \<Rightarrow> string" where
  "joinComma [] = []"
| "joinComma [x] = x"
| "joinComma (x # y # ys) = x @ '', '' @ joinComma (y # ys)"

text \<open>The loop over \<open>Object.entries(res.headers)\<close> in \<open>forward\<close>.\<close>

definition headersOut :: "(string \<times> headerValue) list \<Rightarrow> (nat list \<times> json) list" where
  "headersOut hs =
     List.map_filter (\<lambda>(k, v).
        case v of
          Multi vs \<Rightarrow> Some (units k, JString (units (joinComma vs)))
        | Single x \<Rightarrow> Some (units k, JString (units x))
        | Undefined \<Rightarrow> None) hs"

text \<open>The object that \<open>forward\<close> resolves with.\<close>

definition forwardResult :: "UpstreamResponse \<Rightarrow> json" where
  "forwardResult res =
     JObject
       [(units ''status'', JNumber (showNat (case up_statusCode res of None \<Rightarrow> 0 | Some c \<Rightarrow> c))),
        (units ''statusText'', JString (units (case up_statusMessage res of None \<Rightarrow> [] | Some m \<Rightarrow> m))),
        (units ''headers'', JObject (headersOut (up_headers res))),
        (units ''body'', JString (units (up_text res)))]"

text \<open>Truthiness of a parsed value; a number is falsy when its digits before the exponent
  are all zero.\<close>

definition truthy :: "json \<Rightarrow> bool" where
  "truthy v =
     (case v of
        JNull \<Rightarrow> False
      | JBool b \<Rightarrow> b
      | JNumber lexeme \<Rightarrow> list_ex (\<lambda>c. isDigit c \<and> c \<noteq> CHR ''0'') (takeWhile (\<lambda>c. c \<noteq> CHR ''e'' \<and> c \<noteq> CHR ''E'') lexeme)
      | JString str \<Rightarrow> str \<noteq> []
      | JArray xs \<Rightarrow> True
      | JObject ms \<Rightarrow> True)"

text \<open>\<open>payload.url || payload.targetUrl\<close>, and the test \<open>!targetUrl\<close> after it: reading a
  member of \<open>null\<close> throws, a value that is not an object has no such member, and in an
  object the last member of a name counts.\<close>

definition member :: "json \<Rightarrow> string \<Rightarrow> json option" where
  "member v name = (case v of JObject ms \<Rightarrow> map_of (rev ms) (units name) | _ \<Rightarrow> None)"

definition hasTargetUrl :: "json \<Rightarrow> bool" where
  "hasTargetUrl payload =
     ((case member payload ''url'' of None \<Rightarrow> False | Some v \<Rightarrow> truthy v) \<or>
      (case member payload ''targetUrl'' of None \<Rightarrow> False | Some v \<Rightarrow> truthy v))"

text \<open>\<open>String(e?.message || e)\<close> for an exception value.\<close>

definition errorText :: "jsError \<Rightarrow> string" where
  "errorText e = (if errMessage e = [] then errName e else errMessage e)"

text \<open>The \<open>try\<close> block of the handler: the result of \<open>forward\<close>, or the exception.\<close>

definition tryForward :: "ProxyWorld \<Rightarrow> ProxyRequest \<Rightarrow> jsError + UpstreamResponse" where
  "tryForward pw req =
     (case pq_body req of
        Inl e \<Rightarrow> Inl e
      | Inr raw \<Rightarrow>
          (case JSON_parse (if raw = [] then ''{}'' else raw) of
             None \<Rightarrow> Inl \<lparr> errName = ''SyntaxError'',
                          errMessage = parseErrorText pw (if raw = [] then ''{}'' else raw) \<rparr>
           | Some payload \<Rightarrow>
               if payload = JNull then Inl \<lparr> errName = ''TypeError'', errMessage = nullAccessText pw \<rparr>
               else if \<not> hasTargetUrl payload then Inl \<lparr> errName = ''Error'', errMessage = ''Missing url'' \<rparr>
               else relay pw payload))"

text \<open>The checks in front of the \<open>try\<close> block, the same in both scripts.\<close>

definition rejectRequest :: "ProxyRequest \<Rightarrow> ProxyResponse option" where
  "rejectRequest req =
     (if pq_method req = ''OPTIONS'' then Some \<lparr> px_statusCode = 204, px_json = None \<rparr>
      else if pq_method req \<noteq> ''POST'' then
        Some \<lparr> px_statusCode = 405,
               px_json = Some (JObject [(units ''error'', JString (units ''Method Not Allowed''))]) \<rparr>
      else if pq_url req \<noteq> ''/forward'' then
        Some \<lparr> px_statusCode = 404,
               px_json = Some (JObject [(units ''error'', JString (units ''Not Found''))]) \<rparr>
      else None)"

text \<open>The handler of \<open>server/proxy.mjs\<close>.\<close>

definition proxyHandler :: "ProxyWorld \<Rightarrow> ProxyRequest \<Rightarrow> ProxyResponse" where
  "proxyHandler pw req =
     (case rejectRequest req of
        Some early \<Rightarrow> early
      | None \<Rightarrow>
          (case tryForward pw req of
             Inr res \<Rightarrow> \<lparr> px_statusCode = 200, px_json = Some (forwardResult res) \<rparr>
           | Inl e \<Rightarrow>
               \<lparr> px_statusCode = 500,
                 px_json = Some (JObject [(units ''error'', JString (units (errorText e)))]) \<rparr>))"

text \<open>The second proxy script of the repository, the one with the \<open>DEBUG\<close> switch and the
  timeout: its \<open>forward\<close> adds \<open>isError\<close> to the object, and its \<open>catch\<close> block answers
  with the full envelope.\<close>

definition forwardResultDebug :: "UpstreamResponse \<Rightarrow> json" where
  "forwardResultDebug res =
     (let status = (case up_statusCode res of None \<Rightarrow> 0 | Some c \<Rightarrow> c);
          isError = (status < 200 \<or> status \<ge> 300)
      in JObject
           [(units ''status'', JNumber (showNat status)),
            (units ''statusText'', JString (units (case up_statusMessage res of None \<Rightarrow> [] | Some m \<Rightarrow> m))),
            (units ''headers'', JObject (headersOut (up_headers res))),
            (units ''body'', JString (units (up_text res))),
            (units ''isError'', JBool isError)])"

definition proxyHandlerDebug :: "ProxyWorld \<Rightarrow> ProxyRequest \<Rightarrow> ProxyResponse" where
  "proxyHandlerDebug pw req =
     (case rejectRequest req of
        Some early \<Rightarrow> early
      | None \<Rightarrow>
          (case tryForward pw req of
             Inr res \<Rightarrow> \<lparr> px_statusCode = 200, px_json = Some (forwardResultDebug res) \<rparr>
           | Inl e \<Rightarrow>
               \<lparr> px_statusCode = 500,
                 px_json = Some (JObject
                   [(units ''error'', JString (units (errorText e))),
                    (units ''isError'', JBool True),
                    (units ''status'', JNumber ''0''),
                    (units ''statusText'', JString (units ''Proxy Error'')),
                    (units ''headers'', JObject []),
                    (units ''body'', JString [])]) \<rparr>))"

section \<open>The component from mount to run\<close>

text \<open>\<open>interface FuzzerConfig\<close> of \<open>FuzzerContext.tsx\<close>, and the state of the component when
  it mounts: the \<open>useState\<close> initial values.\<close>

record FuzzerConfig =
  cfg_url :: string
  cfg_headersRaw :: string
  cfg_rawBody :: string
  cfg_query :: string
  cfg_variables :: string
  cfg_useProxy :: bool
  cfg_proxyUrl :: string

definition initialFuzzer :: "FuzzerConfig \<Rightarrow> Fuzzer" where
  "initialFuzzer config =
     \<lparr> url = cfg_url config,
       headersRaw = cfg_headersRaw config,
       query = cfg_query config,
       variables = cfg_variables config,
       useProxy = cfg_useProxy config,
       proxyUrl = cfg_proxyUrl config,
       wordlistText = [],
       replacementMarker = None,
       threads = 1,
       delayMs = 0,
       isRunning = False,
       results = [],
       progressCount = 0,
       activeTab = ConfigTab \<rparr>"

text \<open>The two inputs of the performance panel: what the user has typed reaches the state
  through the \<open>onChange\<close> handler only. Every other handler of the component (\<open>OtherEdit\<close>)
  writes other cells: \<open>setThreads\<close> and \<open>setDelayMs\<close> are called nowhere else.\<close>

datatype inputEvent = ThreadsChanged string | DelayChanged string | OtherEdit "Fuzzer \<Rightarrow> Fuzzer"

fun onChange :: "Fuzzer \<Rightarrow> inputEvent \<Rightarrow> Fuzzer" where
  "onChange st (ThreadsChanged v) = st \<lparr> threads := threadsOnChange v \<rparr>"
| "onChange st (DelayChanged v) = st \<lparr> delayMs := delayOnChange v \<rparr>"
| "onChange st (OtherEdit f) = (f st) \<lparr> threads := threads st, delayMs := delayMs st \<rparr>"

section \<open>The request of the workbench (GraphQLPage.tsx)\<close>

text \<open>\<open>safeJsonParse\<close> (\<open>None\<close> stands for \<open>undefined\<close>) and the body that \<open>onSend\<close> builds from the
  query and the variables text.\<close>

definition safeJsonParse :: "string \<Rightarrow> json option" where
  "safeJsonParse txt = JSON_parse txt"

definition onSendBody :: "string \<Rightarrow> string \<Rightarrow> RequestBody" where
  "onSendBody q vtext =
     \<lparr> rb_query = q,
       rb_variables = (case safeJsonParse vtext of None \<Rightarrow> JObject [] | Some vars \<Rightarrow> vars) \<rparr>"

section \<open>A sample session\<close>

text \<open>The scenario of the test suite: the query \<open>{ users { id } }\<close> with \<open>users\<close> marked,
  the words \<open>adminUsers\<close> and \<open>systemConfig\<close>, no proxy, and a target that answers 200 to
  every request; the proxy, were it used, reports a refused connection. Nobody presses
  Stop.\<close>

definition sampleFuzzer :: Fuzzer where
  "sampleFuzzer =
     \<lparr> url = ''http://target.test/graphql'',
       headersRaw = ''Authorization: Bearer t'',
       query = ''{ users { id } }'',
       variables = ''{}'',
       useProxy = False,
       proxyUrl = ''http://localhost:8787/forward'',
       wordlistText = ''adminUsers'' @ [CHR 0x0A] @ ''systemConfig'',
       replacementMarker = Some \<lparr> m_text = ''users'', m_from = 2, m_to = 7 \<rparr>,
       threads = 1,
       delayMs = 0,
       isRunning = False,
       results = [],
       progressCount = 0,
       activeTab = ConfigTab \<rparr>"

definition sampleWorld :: World where
  "sampleWorld =
     \<lparr> directFetch = (\<lambda>n call. Inr \<lparr> dr_status = 200, dr_text = ''{}'', dr_headers = [] \<rparr>),
       proxyFetch = (\<lambda>n call. Inr \<lparr> sm_error = Some ''Connection refused'', sm_status = None,
                                     sm_body = None, sm_headers = None \<rparr>),
       elapsedMs = (\<lambda>n. 5),
       signalAborted = (\<lambda>n. False),
       syntaxErrorMessage = (\<lambda>text. ''Unexpected end of JSON input'') \<rparr>"


text \<open>A proxy whose target answers 404, and one whose target refuses the connection.\<close>

definition sampleProxyWorld :: ProxyWorld where
  "sampleProxyWorld =
     \<lparr> relay = (\<lambda>payload. Inr \<lparr> up_statusCode = Some 404, up_statusMessage = Some ''Not Found'',
                                  up_headers = [], up_text = ''no'' \<rparr>),
       parseErrorText = (\<lambda>text. ''Unexpected end of JSON input''),
       nullAccessText = ''Cannot read properties of null'' \<rparr>"

definition refusingProxyWorld :: ProxyWorld where
  "refusingProxyWorld =
     sampleProxyWorld \<lparr> relay := (\<lambda>payload. Inl \<lparr> errName = ''Error'', errMessage = ''Connection refused'' \<rparr>) \<rparr>"

definition sampleProxyRequest :: ProxyRequest where
  "sampleProxyRequest =
     \<lparr> pq_method = ''POST'', pq_url = ''/forward'',
       pq_body = Inr (''{'' @ [CHR 0x22] @ ''url'' @ [CHR 0x22] @ '':'' @ [CHR 0x22] @ ''http://target.test/graphql'' @ [CHR 0x22] @ ''}'') \<rparr>"

section \<open>Views of a request used in the statements\<close>

text \<open>The exception that leaves the \<open>try\<close> block of \<open>sendSingleRequest\<close> and enters its
  \<open>catch\<close> block, if there is one: the \<open>SyntaxError\<close> of \<open>JSON.parse\<close>, or the rejection of
  \<open>fetch\<close>, \<open>json()\<close> or \<open>text()\<close> on the route of the request.\<close>

definition tryError :: "Fuzzer \<Rightarrow> World \<Rightarrow> nat \<Rightarrow> string \<Rightarrow> jsError option" where
  "tryError st w n word =
     (case JSON_parse (if variables st = [] then ''{}'' else variables st) of
        None \<Rightarrow> Some \<lparr> errName = ''SyntaxError'',
                      errMessage = syntaxErrorMessage w (if variables st = [] then ''{}'' else variables st) \<rparr>
      | Some vars \<Rightarrow>
          (if useProxy st then
             (case proxyFetch w n (fetchCall st \<lparr> rb_query = currentQuery st word, rb_variables = vars \<rparr>) of
                Inl err \<Rightarrow> Some err | Inr summary \<Rightarrow> None)
           else
             (case directFetch w n (fetchCall st \<lparr> rb_query = currentQuery st word, rb_variables = vars \<rparr>) of
                Inl err \<Rightarrow> Some err | Inr response \<Rightarrow> None)))"

text \<open>The row of the \<open>catch\<close> block for an exception that is not an abort.\<close>

definition errorRow :: "World \<Rightarrow> nat \<Rightarrow> string \<Rightarrow> jsError \<Rightarrow> FuzzResult" where
  "errorRow w n word err =
     \<lparr> requestNum = n,
       statusCode = ''Error: '' @ (if errMessage err = [] then ''Unknown'' else errMessage err),
       contentLength = ''0'',
       timeMs = elapsedMs w n,
       requestBody = None,
       responseBody = [],
       responseHeaders = [],
       wordlistItem = word \<rparr>"

section \<open>Views of a run used in the statements\<close>

text \<open>The words of a wordlist with their request numbers, from 1.\<close>

definition numbered :: "string list \<Rightarrow> (nat \<times> string) list" where
  "numbered wordlist = enumerate 1 wordlist"

text \<open>The row of a request that is fulfilled.\<close>

definition rowOpt :: "Fuzzer \<Rightarrow> World \<Rightarrow> nat \<times> string \<Rightarrow> FuzzResult option" where
  "rowOpt st w call =
     (case sendSingleRequest st w (fst call) (snd call) of
        Fulfilled row \<Rightarrow> Some row
      | Rejected err \<Rightarrow> None)"

text \<open>The sequential loop gets past a request when Stop has not been pressed before it
  and the request is fulfilled.\<close>

definition proceeds :: "Fuzzer \<Rightarrow> World \<Rightarrow> nat \<times> string \<Rightarrow> bool" where
  "proceeds st w call = (\<not> signalAborted w (fst call - 1) \<and> rowOpt st w call \<noteq> None)"

text \<open>\<open>startFuzzing\<close> gets past its two early returns.\<close>

definition startable :: "Fuzzer \<Rightarrow> bool" where
  "startable st = (parseWordlist (wordlistText st) \<noteq> [] \<and> replacementMarker st \<noteq> None)"

text \<open>Nobody presses Stop during the run: the signal is never aborted and no request is
  rejected with an \<open>AbortError\<close>.\<close>

definition noCancellation :: "World \<Rightarrow> bool" where
  "noCancellation w =
     ((\<forall>i. \<not> signalAborted w i) \<and>
      (\<forall>n call e. directFetch w n call = Inl e \<longrightarrow> errName e \<noteq> ''AbortError'') \<and>
      (\<forall>n call e. proxyFetch w n call = Inl e \<longrightarrow> errName e \<noteq> ''AbortError''))"


section \<open>Invariants of the concurrent loop\<close>

text \<open>What holds of the variables whenever the loop is at its head with the batch start
  \<open>i\<close>: no more rows are counted than requests were handed out; every entry of the map
  is the row of the request of that number; the list on display is the one built from
  the map, every list displayed before is a prefix of it, and there is one display per
  batch; the requests handed out so far are the first \<open>i\<close> of the wordlist, in batches of
  at most \<open>n\<close>.\<close>

definition batchInv :: "Fuzzer \<Rightarrow> World \<Rightarrow> string list \<Rightarrow> nat \<Rightarrow> nat \<Rightarrow> Run \<Rightarrow> bool" where
  "batchInv st w wl n i r =
     (processedCount r \<le> i \<and>
      (\<forall>j row. resultMap r j = Some row \<longrightarrow>
         1 \<le> j \<and> j \<le> i \<and> j \<le> length wl \<and> rowOpt st w (j, wl ! (j - 1)) = Some row) \<and>
      shown r = orderedResults r \<and>
      (\<forall>d \<in> set (displays r). prefix d (shown r)) \<and>
      length (displays r) = length (handedOut r) \<and>
      concat (handedOut r) = take i (numbered wl) \<and>
      (\<forall>b \<in> set (handedOut r). length b \<le> n))"

text \<open>When nobody cancels, the map holds the row of every request handed out, and each
  display is the list of the rows of the requests handed out up to its batch.\<close>

definition fullInv :: "Fuzzer \<Rightarrow> World \<Rightarrow> string list \<Rightarrow> nat \<Rightarrow> Run \<Rightarrow> bool" where
  "fullInv st w wl i r =
     (processedCount r = min i (length wl) \<and>
      (\<forall>j. 1 \<le> j \<and> j \<le> min i (length wl) \<longrightarrow> resultMap r j = rowOpt st w (j, wl ! (j - 1))) \<and>
      (\<forall>k < length (displays r).
          displays r ! k = List.map_filter (rowOpt st w) (concat (take (Suc k) (handedOut r)))))"

text \<open>No call is handed out after a group with a rejected request.\<close>

definition noCallAfterAbort :: "Fuzzer \<Rightarrow> World \<Rightarrow> Run \<Rightarrow> bool" where
  "noCallAfterAbort st w r =
     (\<forall>k. Suc k < length (handedOut r) \<longrightarrow> (\<forall>c \<in> set (handedOut r ! k). rowOpt st w c \<noteq> None))"


section \<open>Properties of header parsing\<close>

lemma update_fresh: "k \<notin> fst ` set al \<Longrightarrow> AList.update k v al = al @ [(k, v)]"
  by (induction al) auto

lemma fold_assign_fresh:
  "distinct (map fst (acc @ hs)) \<Longrightarrow> fold (\<lambda>kv acc. assign acc kv) hs acc = acc @ hs"
proof (induction hs arbitrary: acc)
  case Nil
  then show ?case by simp
next
  case (Cons h hs)
  from Cons.prems have fresh: "fst h \<notin> fst ` set acc" by auto
  from Cons.prems have "distinct (map fst ((acc @ [h]) @ hs))" by simp
  from Cons.IH [OF this] fresh show ?case
    by (simp add: assign_def update_fresh)
qed

lemma lower_Content_Type: "toLowerCase ''Content-Type'' = ''content-type''"
  by code_simp

lemma lower_Nil: "toLowerCase [] = []"
  by (simp add: toLowerCase_def)






lemma set_map_filter_iff: "y \<in> set (List.map_filter f xs) \<longleftrightarrow> (\<exists>x \<in> set xs. f x = Some y)"
  by (induction xs) (auto split: option.splits)









text \<open>
  Claim C7. For a header map none of whose keys lower-cases to \<open>content-type\<close>, the merge
  step returns the map with the one entry \<open>Content-Type: application/json\<close> added, a name
  that was not there before, and every other entry as it was; for a map that has such a
  key the result is the map itself. A header map is an object, so its names are distinct.
\<close>

theorem mergeDefault_frame:
  assumes "distinct (map fst headers)"
  shows "(\<not> list_ex (\<lambda>k. toLowerCase k = ''content-type'') (map fst headers) \<longrightarrow>
            mergeDefaultJsonContentType headers = (''Content-Type'', ''application/json'') # headers \<and>
            ''Content-Type'' \<notin> fst ` set headers \<and>
            map_of (mergeDefaultJsonContentType headers)
              = (map_of headers)(''Content-Type'' \<mapsto> ''application/json'')) \<and>
         (list_ex (\<lambda>k. toLowerCase k = ''content-type'') (map fst headers) \<longrightarrow>
            mergeDefaultJsonContentType headers = headers)"
proof (intro conjI impI)
  assume none: "\<not> list_ex (\<lambda>k. toLowerCase k = ''content-type'') (map fst headers)"
  then have nf: "find (\<lambda>k. toLowerCase k = ''content-type'') (map fst headers) = None"
    by (simp add: find_None_iff list_ex_iff)
  from none lower_Content_Type show fresh: "''Content-Type'' \<notin> fst ` set headers"
    by (auto simp: list_ex_iff)
  with assms have "distinct (map fst ([(''Content-Type'', ''application/json'')] @ headers))"
    by auto
  from fold_assign_fresh [OF this] nf
  show eq: "mergeDefaultJsonContentType headers = (''Content-Type'', ''application/json'') # headers"
    by (simp add: mergeDefaultJsonContentType_def)
  show "map_of (mergeDefaultJsonContentType headers)
          = (map_of headers)(''Content-Type'' \<mapsto> ''application/json'')"
    by (simp add: eq)
next
  assume some: "list_ex (\<lambda>k. toLowerCase k = ''content-type'') (map fst headers)"
  then obtain k where k: "find (\<lambda>k. toLowerCase k = ''content-type'') (map fst headers) = Some k"
    by (cases "find (\<lambda>k. toLowerCase k = ''content-type'') (map fst headers)")
       (auto simp: find_None_iff list_ex_iff)
  then have "toLowerCase k = ''content-type''"
    by (auto simp: find_Some_iff)
  then have "k \<noteq> []" by (auto simp: lower_Nil)
  with k show "mergeDefaultJsonContentType headers = headers"
    by (simp add: mergeDefaultJsonContentType_def)
qed


theorem mergeDefault_frame_witness:
  "distinct (map fst [(''Authorization'', ''Bearer t'')]) \<and>
   mergeDefaultJsonContentType [(''Authorization'', ''Bearer t'')]
     = [(''Content-Type'', ''application/json''), (''Authorization'', ''Bearer t'')] \<and>
   mergeDefaultJsonContentType [(''content-TYPE'', ''text/plain'')] = [(''content-TYPE'', ''text/plain'')]"
proof -
  have d1: "distinct (map fst [(''Authorization'', ''Bearer t'')])"
    by simp
  have n1: "\<not> list_ex (\<lambda>k. toLowerCase k = ''content-type'') (map fst [(''Authorization'', ''Bearer t'')])"
    by code_simp
  have d2: "distinct (map fst [(''content-TYPE'', ''text/plain'')])"
    by simp
  have y2: "list_ex (\<lambda>k. toLowerCase k = ''content-type'') (map fst [(''content-TYPE'', ''text/plain'')])"
    by code_simp
  from mergeDefault_frame [OF d1] n1 mergeDefault_frame [OF d2] y2 d1 show ?thesis
    by blast
qed

section \<open>Properties of the session wordlist\<close>

lemma tokens_getUserData: "splitWordsTokenize ''getUserData'' = [''get'', ''user'', ''data'']"
  by code_simp

lemma tokens_user_profile: "splitWordsTokenize ''user_profile'' = [''user'', ''profile'']"
  by code_simp

lemma lower_getUserData: "toLowerCase ''getUserData'' = ''getuserdata''"
  by code_simp

lemma lower_user_profile: "toLowerCase ''user_profile'' = ''user_profile''"
  by code_simp


text \<open>
  Claim C8. Adding the identifier \<open>getUserData\<close> to a session wordlist adds exactly the
  words \<open>get\<close>, \<open>user\<close>, \<open>data\<close> and \<open>getuserdata\<close>; adding \<open>user_profile\<close> adds exactly
  \<open>user\<close>, \<open>profile\<close> and \<open>user_profile\<close>.
\<close>

theorem addWord_examples:
  "addWord wset ''getUserData'' = wset \<union> {''get'', ''user'', ''data'', ''getuserdata''} \<and>
   addWord wset ''user_profile'' = wset \<union> {''user'', ''profile'', ''user_profile''}"
  unfolding addWord_def tokens_getUserData tokens_user_profile lower_getUserData lower_user_profile
  by auto


section \<open>Properties of the performance settings\<close>

lemma threadsOnChange_range: "1 \<le> threadsOnChange v \<and> threadsOnChange v \<le> 50"
  by (simp add: threadsOnChange_def)

lemma delayOnChange_range: "0 \<le> delayOnChange v"
  by (simp add: delayOnChange_def)

lemma settings_invariant:
  "1 \<le> threads st \<and> threads st \<le> 50 \<and> 0 \<le> delayMs st \<Longrightarrow>
   1 \<le> threads (foldl onChange st evs) \<and> threads (foldl onChange st evs) \<le> 50 \<and>
   0 \<le> delayMs (foldl onChange st evs)"
proof (induction evs arbitrary: st)
  case Nil
  then show ?case by simp
next
  case (Cons ev evs)
  show ?case
  proof (cases ev)
    case (ThreadsChanged v)
    with Cons.prems threadsOnChange_range [of v] show ?thesis
      by (simp add: Cons.IH)
  next
    case (DelayChanged v)
    with Cons.prems delayOnChange_range [of v] show ?thesis
      by (simp add: Cons.IH)
  next
    case (OtherEdit f)
    with Cons.prems show ?thesis
      by (simp add: Cons.IH)
  qed
qed

section \<open>Properties of one request\<close>


lemma catchBlock_other:
  "errName e \<noteq> ''AbortError'' \<Longrightarrow> catchBlock w n word e = Fulfilled (errorRow w n word e)"
  by (simp add: catchBlock_def errorRow_def)

lemma send_tryError:
  assumes "tryError st w n word = Some e"
  shows "sendSingleRequest st w n word = catchBlock w n word e"
proof (cases "JSON_parse (if variables st = [] then ''{}'' else variables st)")
  case None
  with assms show ?thesis
    by (simp add: tryError_def sendSingleRequest_def)
next
  case (Some vars)
  show ?thesis
  proof (cases "useProxy st")
    case True
    with Some assms show ?thesis
      by (cases "proxyFetch w n (fetchCall st \<lparr> rb_query = currentQuery st word, rb_variables = vars \<rparr>)")
         (simp_all add: tryError_def sendSingleRequest_def)
  next
    case False
    with Some assms show ?thesis
      by (cases "directFetch w n (fetchCall st \<lparr> rb_query = currentQuery st word, rb_variables = vars \<rparr>)")
         (simp_all add: tryError_def sendSingleRequest_def)
  qed
qed

lemma send_no_tryError:
  assumes "tryError st w n word = None"
  shows "\<exists>row vars. sendSingleRequest st w n word = Fulfilled row \<and> requestNum row = n \<and>
      wordlistItem row = word \<and>
      JSON_parse (if variables st = [] then ''{}'' else variables st) = Some vars \<and>
      requestBody row = Some \<lparr> rb_query = currentQuery st word, rb_variables = vars \<rparr>"
proof (cases "JSON_parse (if variables st = [] then ''{}'' else variables st)")
  case None
  with assms show ?thesis
    by (simp add: tryError_def)
next
  case (Some vars)
  show ?thesis
  proof (cases "useProxy st")
    case True
    with Some assms show ?thesis
      by (cases "proxyFetch w n (fetchCall st \<lparr> rb_query = currentQuery st word, rb_variables = vars \<rparr>)")
         (simp_all add: tryError_def sendSingleRequest_def Let_def)
  next
    case False
    with Some assms show ?thesis
      by (cases "directFetch w n (fetchCall st \<lparr> rb_query = currentQuery st word, rb_variables = vars \<rparr>)")
         (simp_all add: tryError_def sendSingleRequest_def)
  qed
qed

text \<open>
  Claim C9. On the proxy route, when the object that the proxy returns has an \<open>error\<close>
  member that the test \<open>if (summary.error)\<close> accepts (a string that is not empty), as in
  \<open>{error: "Connection refused"}\<close>, the request is fulfilled with a row whose status is
  \<open>Proxy Error: \<close> followed by that text and whose content length is the string \<open>0\<close>.
\<close>

theorem proxy_error_row:
  assumes "useProxy st"
    and "JSON_parse (if variables st = [] then ''{}'' else variables st) = Some vars"
    and "proxyFetch w n (fetchCall st \<lparr> rb_query = currentQuery st word, rb_variables = vars \<rparr>) = Inr summary"
    and "sm_error summary = Some e" and "e \<noteq> []"
  shows "\<exists>row. sendSingleRequest st w n word = Fulfilled row \<and>
           statusCode row = ''Proxy Error: '' @ e \<and> contentLength row = ''0'' \<and>
           requestNum row = n \<and> wordlistItem row = word"
  using assms by (simp add: sendSingleRequest_def)

lemma parse_empty_object: "JSON_parse ''{}'' = Some (JObject [])"
  by code_simp

lemma parse_open_brace: "JSON_parse ''{'' = None"
  by code_simp

theorem proxy_error_row_witness:
  "\<exists>row. sendSingleRequest (sampleFuzzer \<lparr> useProxy := True \<rparr>) sampleWorld 1 ''adminUsers'' = Fulfilled row \<and>
         statusCode row = ''Proxy Error: Connection refused'' \<and> contentLength row = ''0'' \<and>
         requestNum row = 1 \<and> wordlistItem row = ''adminUsers''"
proof -
  let ?st = "sampleFuzzer \<lparr> useProxy := True \<rparr>"
  have a: "useProxy ?st" by simp
  have b: "JSON_parse (if variables ?st = [] then ''{}'' else variables ?st) = Some (JObject [])"
    by (simp add: sampleFuzzer_def parse_empty_object)
  have c: "proxyFetch sampleWorld 1 (fetchCall ?st \<lparr> rb_query = currentQuery ?st ''adminUsers'', rb_variables = JObject [] \<rparr>)
             = Inr \<lparr> sm_error = Some ''Connection refused'', sm_status = None, sm_body = None, sm_headers = None \<rparr>"
    by (simp add: sampleWorld_def)
  have d: "sm_error \<lparr> sm_error = Some ''Connection refused'', sm_status = None, sm_body = None, sm_headers = None \<rparr> = Some ''Connection refused''"
    by simp
  have e: "''Connection refused'' \<noteq> []" by simp
  from proxy_error_row [OF a b c d e] show ?thesis by simp
qed

subsection \<open>Variables that are not JSON\<close>

text \<open>What \<open>sendSingleRequest\<close> does with the variables text: a text that is not empty and
  does not parse sends the request into the \<open>catch\<close> block, so the row is an error row
  without a request body and \<open>fetch\<close> is never reached; only the empty text is replaced
  by \<open>{}\<close>.\<close>

lemma malformed_variables_row:
  assumes "variables st \<noteq> []" and "JSON_parse (variables st) = None"
  shows "sendSingleRequest st w n word =
           Fulfilled (errorRow w n word \<lparr> errName = ''SyntaxError'', errMessage = syntaxErrorMessage w (variables st) \<rparr>)"
proof -
  from assms have "tryError st w n word = Some \<lparr> errName = ''SyntaxError'', errMessage = syntaxErrorMessage w (variables st) \<rparr>"
    by (simp add: tryError_def)
  from send_tryError [OF this] show ?thesis
    by (simp add: catchBlock_other)
qed

lemma empty_variables_body:
  assumes "variables st = []" and "tryError st w n word = None"
  shows "\<exists>row. sendSingleRequest st w n word = Fulfilled row \<and>
           requestBody row = Some \<lparr> rb_query = currentQuery st word, rb_variables = JObject [] \<rparr>"
  using send_no_tryError [OF assms(2)] assms(1) by (auto simp: parse_empty_object)

text \<open>The page \<open>GraphQLPage.tsx\<close> builds the body of the same request through
  \<open>safeJsonParse\<close>, which turns every text that does not parse into the empty object.\<close>

lemma onSendBody_recovers:
  "JSON_parse vtext = None \<Longrightarrow> onSendBody q vtext = \<lparr> rb_query = q, rb_variables = JObject [] \<rparr>"
  by (simp add: onSendBody_def safeJsonParse_def)

text \<open>
  Claim C3. The claim says that a fuzz request whose variables text is not JSON is still
  built and sent with \<open>{}\<close> for the variables. In the fuzzer it is not: with the
  variables text \<open>{\<close> the first request of the sample session ends as an error row with
  the message of the \<open>SyntaxError\<close> and no request body.
\<close>

theorem malformed_variables_not_recovered:
  "sendSingleRequest (sampleFuzzer \<lparr> variables := ''{'' \<rparr>) sampleWorld 1 ''adminUsers'' =
     Fulfilled \<lparr> requestNum = 1, statusCode = ''Error: Unexpected end of JSON input'',
                 contentLength = ''0'', timeMs = 5, requestBody = None, responseBody = [],
                 responseHeaders = [], wordlistItem = ''adminUsers'' \<rparr>"
proof -
  have "variables (sampleFuzzer \<lparr> variables := ''{'' \<rparr>) \<noteq> []" by simp
  moreover have "JSON_parse (variables (sampleFuzzer \<lparr> variables := ''{'' \<rparr>)) = None"
    by (simp add: parse_open_brace)
  ultimately show ?thesis
    by (simp add: malformed_variables_row errorRow_def sampleWorld_def)
qed

subsection \<open>What a settled request tells\<close>

lemma send_Fulfilled_facts:
  assumes "sendSingleRequest st w num word = Fulfilled row"
  shows "requestNum row = num \<and> wordlistItem row = word \<and>
         (\<forall>b. requestBody row = Some b \<longrightarrow> rb_query b = currentQuery st word)"
proof (cases "tryError st w num word")
  case None
  from send_no_tryError [OF None] assms show ?thesis by auto
next
  case (Some e)
  from send_tryError [OF Some] assms have cb: "catchBlock w num word e = Fulfilled row" by simp
  then have "errName e \<noteq> ''AbortError''"
    by (auto simp: catchBlock_def split: if_splits)
  with cb have "row = errorRow w num word e" by (simp add: catchBlock_other)
  then show ?thesis by (simp add: errorRow_def)
qed

lemma send_Rejected:
  assumes "sendSingleRequest st w num word = Rejected e"
  shows "tryError st w num word = Some e \<and> errName e = ''AbortError''"
proof (cases "tryError st w num word")
  case None
  from send_no_tryError [OF None] assms show ?thesis by auto
next
  case (Some e')
  from send_tryError [OF Some] assms have cb: "catchBlock w num word e' = Rejected e" by simp
  then have "errName e' = ''AbortError'' \<and> e' = e"
    by (auto simp: catchBlock_def split: if_splits)
  with Some show ?thesis by auto
qed

lemma rowOpt_Some:
  "rowOpt st w call = Some row \<longleftrightarrow> sendSingleRequest st w (fst call) (snd call) = Fulfilled row"
  by (cases "sendSingleRequest st w (fst call) (snd call)") (simp_all add: rowOpt_def)

lemma rowOpt_None:
  "rowOpt st w call = None \<longleftrightarrow> (\<exists>e. sendSingleRequest st w (fst call) (snd call) = Rejected e)"
  by (cases "sendSingleRequest st w (fst call) (snd call)") (simp_all add: rowOpt_def)

lemma rowOpt_requestNum: "rowOpt st w call = Some row \<Longrightarrow> requestNum row = fst call"
  using send_Fulfilled_facts by (simp add: rowOpt_Some)

section \<open>Properties of the loops\<close>

subsection \<open>The outcomes of a batch\<close>

lemma processSettled_send:
  "processSettled (sendSingleRequest st w (fst call) (snd call)) r =
     (case rowOpt st w call of
        None \<Rightarrow> r
      | Some row \<Rightarrow> r \<lparr> resultMap := (resultMap r)(fst call \<mapsto> row), processedCount := processedCount r + 1 \<rparr>)"
proof (cases "sendSingleRequest st w (fst call) (snd call)")
  case (Fulfilled row)
  with send_Fulfilled_facts [OF Fulfilled] show ?thesis
    by (simp add: processSettled_def rowOpt_def)
next
  case (Rejected e)
  then show ?thesis by (simp add: processSettled_def rowOpt_def)
qed

lemma fold_settled_other:
  "shown (fold processSettled (map (\<lambda>(num, word). sendSingleRequest st w num word) cs) r) = shown r \<and>
   displays (fold processSettled (map (\<lambda>(num, word). sendSingleRequest st w num word) cs) r) = displays r \<and>
   handedOut (fold processSettled (map (\<lambda>(num, word). sendSingleRequest st w num word) cs) r) = handedOut r \<and>
   escaped (fold processSettled (map (\<lambda>(num, word). sendSingleRequest st w num word) cs) r) = escaped r"
proof (induction cs arbitrary: r)
  case Nil
  then show ?case by simp
next
  case (Cons c cs)
  obtain num word where c: "c = (num, word)" by (cases c)
  show ?case
    using processSettled_send [of st w c r] Cons.IH
    by (cases "rowOpt st w c") (simp_all add: c)
qed

lemma fold_settled_count:
  "processedCount (fold processSettled (map (\<lambda>(num, word). sendSingleRequest st w num word) cs) r)
     = processedCount r + length (List.map_filter (rowOpt st w) cs)"
proof (induction cs arbitrary: r)
  case Nil
  then show ?case by simp
next
  case (Cons c cs)
  obtain num word where c: "c = (num, word)" by (cases c)
  show ?case
    using processSettled_send [of st w c r] Cons.IH
    by (cases "rowOpt st w c") (simp_all add: c)
qed

lemma fold_settled_map_old:
  "j \<notin> fst ` set cs \<Longrightarrow>
   resultMap (fold processSettled (map (\<lambda>(num, word). sendSingleRequest st w num word) cs) r) j = resultMap r j"
proof (induction cs arbitrary: r)
  case Nil
  then show ?case by simp
next
  case (Cons c cs)
  obtain num word where c: "c = (num, word)" by (cases c)
  from Cons.prems have "j \<notin> fst ` set cs" and "j \<noteq> num" by (auto simp: c)
  then show ?case
    using processSettled_send [of st w c r] Cons.IH
    by (cases "rowOpt st w c") (simp_all add: c)
qed

lemma fold_settled_map_new:
  "distinct (map fst cs) \<Longrightarrow> c \<in> set cs \<Longrightarrow>
   resultMap (fold processSettled (map (\<lambda>(num, word). sendSingleRequest st w num word) cs) r) (fst c)
     = (case rowOpt st w c of None \<Rightarrow> resultMap r (fst c) | Some row \<Rightarrow> Some row)"
proof (induction cs arbitrary: r)
  case Nil
  then show ?case by simp
next
  case (Cons d cs)
  obtain num word where d: "d = (num, word)" by (cases d)
  show ?case
  proof (cases "c = d")
    case True
    from Cons.prems have "fst d \<notin> fst ` set cs" by auto
    from fold_settled_map_old [OF this] True show ?thesis
      using processSettled_send [of st w d r]
      by (cases "rowOpt st w d") (simp_all add: d)
  next
    case False
    with Cons.prems have in_cs: "c \<in> set cs" and dist: "distinct (map fst cs)" by auto
    from Cons.prems in_cs have ne: "fst c \<noteq> num" by (auto simp: d)
    have "resultMap (processSettled (sendSingleRequest st w num word) r) (fst c) = resultMap r (fst c)"
      using processSettled_send [of st w d r] ne
      by (cases "rowOpt st w d") (simp_all add: d)
    then show ?thesis
      by (simp add: d Cons.IH [OF dist in_cs] split: option.splits)
  qed
qed

subsection \<open>A rule for the concurrent loop\<close>

text \<open>With a positive step the loop returns, and a property that every pass preserves
  holds when it does; it returns because the wordlist is used up or Stop was pressed.\<close>

lemma batchLoop_rule:
  assumes n: "0 < n" and inv: "I i r"
    and step: "\<And>i r. I i r \<Longrightarrow> i < length wl \<Longrightarrow> \<not> signalAborted w i \<Longrightarrow> I (i + n) (batchStep st w wl n i r)"
  shows "\<exists>i' r'. batchLoop st w wl n i r = Some r' \<and> I i' r' \<and> (length wl \<le> i' \<or> signalAborted w i')"
  using inv
proof (induction "length wl - i" arbitrary: i r rule: less_induct)
  case less
  show ?case
  proof (cases "i < length wl")
    case False
    with less.prems show ?thesis
      by (subst batchLoop.simps) auto
  next
    case True
    show ?thesis
    proof (cases "signalAborted w i")
      case True
      with less.prems \<open>i < length wl\<close> show ?thesis
        by (subst batchLoop.simps) auto
    next
      case False
      from n True have "length wl - (i + n) < length wl - i" by arith
      from less.hyps [OF this step [OF less.prems True False]]
      obtain i' r' where "batchLoop st w wl n (i + n) (batchStep st w wl n i r) = Some r'"
        and "I i' r'" and "length wl \<le> i' \<or> signalAborted w i'" by blast
      with True False show ?thesis
        by (subst batchLoop.simps) auto
    qed
  qed
qed

subsection \<open>One pass of the concurrent loop\<close>

lemma map_enumerate_shift:
  "map (\<lambda>(b, x). (k + b + 1, x)) (enumerate m xs) = enumerate (k + m + 1) xs"
  by (induction xs arbitrary: m) simp_all

lemma batch_calls:
  "map (\<lambda>(batchIndex, word). (i + batchIndex + 1, word)) (enumerate 0 (take n (drop i wl)))
     = take n (drop i (numbered wl))"
proof -
  have "enumerate (i + 1) (take n (drop i wl)) = take n (drop i (enumerate 1 wl))"
  proof (rule nth_equalityI)
    show "length (enumerate (i + 1) (take n (drop i wl))) = length (take n (drop i (enumerate 1 wl)))"
      by simp
  next
    fix k assume "k < length (enumerate (i + 1) (take n (drop i wl)))"
    then have k: "k < n" "i + k < length wl" by auto
    then have "take n (drop i (enumerate 1 wl)) ! k = enumerate 1 wl ! (i + k)"
      by simp
    also from k have "\<dots> = (1 + (i + k), wl ! (i + k))"
      by (simp add: nth_enumerate_eq)
    finally show "enumerate (i + 1) (take n (drop i wl)) ! k = take n (drop i (enumerate 1 wl)) ! k"
      using k by (simp add: nth_enumerate_eq)
  qed
  with map_enumerate_shift [of i 0 "take n (drop i wl)"] show ?thesis
    by (simp add: numbered_def)
qed

lemma in_numbered:
  "c \<in> set (numbered wl) \<longleftrightarrow> 1 \<le> fst c \<and> fst c \<le> length wl \<and> snd c = wl ! (fst c - 1)"
  by (auto simp: numbered_def in_set_enumerate_eq)

lemma numbered_nth: "k < length wl \<Longrightarrow> numbered wl ! k = (Suc k, wl ! k)"
  by (simp add: numbered_def nth_enumerate_eq)

lemma length_numbered [simp]: "length (numbered wl) = length wl"
  by (simp add: numbered_def)

lemma in_calls:
  "c \<in> set (take n (drop i (numbered wl))) \<longleftrightarrow>
     i < fst c \<and> fst c \<le> i + n \<and> fst c \<le> length wl \<and> snd c = wl ! (fst c - 1)"
proof
  assume "c \<in> set (take n (drop i (numbered wl)))"
  then obtain k where k: "k < length (take n (drop i (numbered wl)))"
    and c: "c = take n (drop i (numbered wl)) ! k"
    by (auto simp: in_set_conv_nth)
  from k have "k < n" "i + k < length wl" by auto
  with c have "c = (Suc (i + k), wl ! (i + k))"
    by (simp add: numbered_nth)
  with \<open>k < n\<close> \<open>i + k < length wl\<close> show "i < fst c \<and> fst c \<le> i + n \<and> fst c \<le> length wl \<and> snd c = wl ! (fst c - 1)"
    by simp
next
  assume a: "i < fst c \<and> fst c \<le> i + n \<and> fst c \<le> length wl \<and> snd c = wl ! (fst c - 1)"
  define k where "k = fst c - 1 - i"
  from a have k: "k < n" "i + k < length wl" "fst c = Suc (i + k)" by (auto simp: k_def)
  with a have "c = (Suc (i + k), wl ! (i + k))" by (cases c) auto
  with k have "c = take n (drop i (numbered wl)) ! k" by (simp add: numbered_nth)
  moreover from k have "k < length (take n (drop i (numbered wl)))" by simp
  ultimately show "c \<in> set (take n (drop i (numbered wl)))"
    by (metis nth_mem)
qed

lemma distinct_calls: "distinct (map fst (take n (drop i (numbered wl))))"
proof -
  have "distinct (map fst (numbered wl))" by (simp add: numbered_def)
  then have "distinct (drop i (map fst (numbered wl)))" by (rule distinct_drop)
  then have "distinct (take n (drop i (map fst (numbered wl))))" by (rule distinct_take)
  then show ?thesis by (simp add: take_map drop_map)
qed

lemma batchStep_eq:
  "batchStep st w wl n i r =
     (let r1 = fold processSettled
                 (map (\<lambda>(num, word). sendSingleRequest st w num word) (take n (drop i (numbered wl)))) r
      in r1 \<lparr> shown := orderedResults r1, progress := processedCount r1,
               displays := displays r1 @ [orderedResults r1],
               handedOut := handedOut r1 @ [take n (drop i (numbered wl))] \<rparr>)"
  by (simp only: batchStep_def Let_def batch_calls)

lemma orderedResults_cong:
  "resultMap r' = resultMap r \<Longrightarrow> processedCount r' = processedCount r \<Longrightarrow>
   orderedResults r' = orderedResults r"
  by (simp add: orderedResults_def)

text \<open>The display after a batch depends on the set of its outcomes only: processing the
  outcomes of the same calls in another order gives the same list.\<close>

lemma length_map_filter_card:
  assumes "distinct xs"
  shows "length (List.map_filter f xs) = card {x \<in> set xs. f x \<noteq> None}"
proof -
  have "length (List.map_filter f xs) = length (filter (\<lambda>x. f x \<noteq> None) xs)"
    by (simp add: List.map_filter_def)
  also from assms have "\<dots> = card ({x. f x \<noteq> None} \<inter> set xs)"
    by (rule distinct_length_filter)
  also have "{x. f x \<noteq> None} \<inter> set xs = {x \<in> set xs. f x \<noteq> None}" by auto
  finally show ?thesis .
qed

lemma batch_order_irrelevant:
  assumes d: "distinct (map fst cs)" and d': "distinct (map fst cs')" and s: "set cs' = set cs"
  shows "orderedResults (fold processSettled (map (\<lambda>(num, word). sendSingleRequest st w num word) cs') r)
       = orderedResults (fold processSettled (map (\<lambda>(num, word). sendSingleRequest st w num word) cs) r)"
proof (rule orderedResults_cong)
  show "resultMap (fold processSettled (map (\<lambda>(num, word). sendSingleRequest st w num word) cs') r)
      = resultMap (fold processSettled (map (\<lambda>(num, word). sendSingleRequest st w num word) cs) r)"
  proof (rule ext)
    fix j
    show "resultMap (fold processSettled (map (\<lambda>(num, word). sendSingleRequest st w num word) cs') r) j
        = resultMap (fold processSettled (map (\<lambda>(num, word). sendSingleRequest st w num word) cs) r) j"
    proof (cases "j \<in> fst ` set cs")
      case False
      with s have "j \<notin> fst ` set cs'" by simp
      from fold_settled_map_old [OF this] fold_settled_map_old [OF False] show ?thesis
        by simp
    next
      case True
      then obtain c where c: "c \<in> set cs" "fst c = j" by auto
      with s have c': "c \<in> set cs'" by simp
      from fold_settled_map_new [OF d c(1), of st w r] fold_settled_map_new [OF d' c', of st w r] c(2)
      show ?thesis by simp
    qed
  qed
next
  from d have "distinct cs" by (simp add: distinct_map)
  moreover from d' have "distinct cs'" by (simp add: distinct_map)
  ultimately have "length (List.map_filter (rowOpt st w) cs') = length (List.map_filter (rowOpt st w) cs)"
    by (simp add: length_map_filter_card s)
  then show "processedCount (fold processSettled (map (\<lambda>(num, word). sendSingleRequest st w num word) cs') r)
      = processedCount (fold processSettled (map (\<lambda>(num, word). sendSingleRequest st w num word) cs) r)"
    by (simp add: fold_settled_count)
qed

lemma batchStep_fields:
  "resultMap (batchStep st w wl n i r) j =
     (if j \<in> fst ` set (take n (drop i (numbered wl)))
      then (case rowOpt st w (j, wl ! (j - 1)) of None \<Rightarrow> resultMap r j | Some row \<Rightarrow> Some row)
      else resultMap r j)"
  "processedCount (batchStep st w wl n i r)
     = processedCount r + length (List.map_filter (rowOpt st w) (take n (drop i (numbered wl))))"
  "shown (batchStep st w wl n i r) = orderedResults (batchStep st w wl n i r)"
  "displays (batchStep st w wl n i r) = displays r @ [shown (batchStep st w wl n i r)]"
  "handedOut (batchStep st w wl n i r) = handedOut r @ [take n (drop i (numbered wl))]"
  "escaped (batchStep st w wl n i r) = escaped r"
proof -
  let ?cs = "take n (drop i (numbered wl))"
  let ?r1 = "fold processSettled (map (\<lambda>(num, word). sendSingleRequest st w num word) ?cs) r"
  show "resultMap (batchStep st w wl n i r) j =
     (if j \<in> fst ` set ?cs
      then (case rowOpt st w (j, wl ! (j - 1)) of None \<Rightarrow> resultMap r j | Some row \<Rightarrow> Some row)
      else resultMap r j)"
  proof (cases "j \<in> fst ` set ?cs")
    case False
    from fold_settled_map_old [OF False] False show ?thesis
      by (simp add: batchStep_eq Let_def)
  next
    case True
    then obtain c where c: "c \<in> set ?cs" "fst c = j" by auto
    with in_calls [of c n i wl] have "c = (j, wl ! (j - 1))" by (cases c) auto
    with fold_settled_map_new [OF distinct_calls c(1), of st w r] True c show ?thesis
      by (simp add: batchStep_eq Let_def split: option.splits)
  qed
  show "processedCount (batchStep st w wl n i r)
     = processedCount r + length (List.map_filter (rowOpt st w) ?cs)"
    by (simp add: batchStep_eq Let_def fold_settled_count)
  show "shown (batchStep st w wl n i r) = orderedResults (batchStep st w wl n i r)"
    by (simp add: batchStep_eq Let_def orderedResults_def)
  show "displays (batchStep st w wl n i r) = displays r @ [shown (batchStep st w wl n i r)]"
    using fold_settled_other [of st w ?cs r] by (simp add: batchStep_eq Let_def)
  show "handedOut (batchStep st w wl n i r) = handedOut r @ [?cs]"
    using fold_settled_other [of st w ?cs r] by (simp add: batchStep_eq Let_def)
  show "escaped (batchStep st w wl n i r) = escaped r"
    using fold_settled_other [of st w ?cs r] by (simp add: batchStep_eq Let_def)
qed

subsection \<open>The invariant of the concurrent loop\<close>

lemma map_filter_app: "List.map_filter f (xs @ ys) = List.map_filter f xs @ List.map_filter f ys"
  by (induction xs) (simp_all split: option.splits)

lemma length_map_filter_le: "length (List.map_filter f xs) \<le> length xs"
  by (induction xs) (simp_all split: option.splits)

lemma map_filter_all_Some:
  "\<forall>x \<in> set xs. f x \<noteq> None \<Longrightarrow> length (List.map_filter f xs) = length xs"
  by (induction xs) (auto split: option.splits)

lemma map_filter_agree:
  "\<forall>x \<in> set xs. f x = g x \<Longrightarrow> List.map_filter f xs = List.map_filter g xs"
  by (induction xs) (simp_all split: option.splits)

lemma set_orderedResults:
  "row \<in> set (orderedResults r) \<Longrightarrow> \<exists>j. resultMap r j = Some row"
  by (auto simp: orderedResults_def set_map_filter_iff)

lemma orderedResults_prefix:
  assumes "processedCount r \<le> processedCount r'"
    and "\<forall>j. j \<le> processedCount r \<longrightarrow> resultMap r' j = resultMap r j"
  shows "prefix (orderedResults r) (orderedResults r')"
proof -
  obtain d where d: "processedCount r' = processedCount r + d"
    using assms(1) by (auto simp: le_iff_add)
  have "[1..<processedCount r' + 1] = [1..<processedCount r + 1] @ [processedCount r + 1..<processedCount r + 1 + d]"
    unfolding d using upt_add_eq_append [of 1 "processedCount r + 1" d] by (simp add: add.commute add.left_commute)
  moreover have "List.map_filter (resultMap r') [1..<processedCount r + 1]
                 = List.map_filter (resultMap r) [1..<processedCount r + 1]"
    using assms(2) by (intro map_filter_agree) auto
  ultimately show ?thesis
    by (simp add: orderedResults_def map_filter_app)
qed

lemma calls_length: "length (take n (drop i (numbered wl))) = min n (length wl - i)"
  by simp

lemma batchInv_step:
  assumes inv: "batchInv st w wl n i r" and i: "i < length wl"
  shows "batchInv st w wl n (i + n) (batchStep st w wl n i r)"
proof -
  let ?cs = "take n (drop i (numbered wl))"
  let ?r' = "batchStep st w wl n i r"
  from inv have pc: "processedCount r \<le> i"
    and ent: "\<And>j row. resultMap r j = Some row \<Longrightarrow>
         1 \<le> j \<and> j \<le> i \<and> j \<le> length wl \<and> rowOpt st w (j, wl ! (j - 1)) = Some row"
    and sh: "shown r = orderedResults r"
    and pre: "\<And>d. d \<in> set (displays r) \<Longrightarrow> prefix d (shown r)"
    and len: "length (displays r) = length (handedOut r)"
    and cat: "concat (handedOut r) = take i (numbered wl)"
    and bnd: "\<And>b. b \<in> set (handedOut r) \<Longrightarrow> length b \<le> n"
    by (auto simp: batchInv_def)
  have old: "\<And>j. j \<le> i \<Longrightarrow> resultMap ?r' j = resultMap r j"
    using in_calls [of _ n i wl] by (auto simp: batchStep_fields(1))
  have pc': "processedCount ?r' \<le> i + n"
  proof -
    have "length (List.map_filter (rowOpt st w) ?cs) \<le> length ?cs" by (rule length_map_filter_le)
    also have "\<dots> \<le> n" by simp
    finally show ?thesis using pc by (simp add: batchStep_fields(2))
  qed
  have ent': "\<forall>j row. resultMap ?r' j = Some row \<longrightarrow>
         1 \<le> j \<and> j \<le> i + n \<and> j \<le> length wl \<and> rowOpt st w (j, wl ! (j - 1)) = Some row"
  proof (intro allI impI)
    fix j row assume a: "resultMap ?r' j = Some row"
    show "1 \<le> j \<and> j \<le> i + n \<and> j \<le> length wl \<and> rowOpt st w (j, wl ! (j - 1)) = Some row"
    proof (cases "j \<in> fst ` set ?cs")
      case False
      with a have "resultMap r j = Some row" by (simp add: batchStep_fields(1))
      from ent [OF this] show ?thesis by auto
    next
      case True
      then obtain c where c: "c \<in> set ?cs" "fst c = j" by auto
      with in_calls [of c n i wl] have b: "i < j" "j \<le> i + n" "j \<le> length wl" by auto
      show ?thesis
      proof (cases "rowOpt st w (j, wl ! (j - 1))")
        case None
        with a True have "resultMap r j = Some row" by (simp add: batchStep_fields(1))
        from ent [OF this] b show ?thesis by auto
      next
        case (Some row')
        with a True have "row' = row" by (simp add: batchStep_fields(1))
        with Some b show ?thesis by auto
      qed
    qed
  qed
  have grow: "prefix (shown r) (shown ?r')"
  proof -
    have "processedCount r \<le> processedCount ?r'" by (simp add: batchStep_fields(2))
    moreover have "\<forall>j. j \<le> processedCount r \<longrightarrow> resultMap ?r' j = resultMap r j"
      using old pc by auto
    ultimately have "prefix (orderedResults r) (orderedResults ?r')"
      by (rule orderedResults_prefix)
    then show ?thesis by (simp add: sh batchStep_fields(3))
  qed
  have pre': "\<forall>d \<in> set (displays ?r'). prefix d (shown ?r')"
  proof
    fix d assume "d \<in> set (displays ?r')"
    then have "d \<in> set (displays r) \<or> d = shown ?r'" by (auto simp: batchStep_fields(4))
    then show "prefix d (shown ?r')"
    proof
      assume "d \<in> set (displays r)"
      from pre [OF this] grow show ?thesis by (rule prefix_order.order_trans)
    next
      assume "d = shown ?r'"
      then show ?thesis by simp
    qed
  qed
  have len': "length (displays ?r') = length (handedOut ?r')"
    by (simp add: batchStep_fields(4,5) len)
  have cat': "concat (handedOut ?r') = take (i + n) (numbered wl)"
    by (simp add: batchStep_fields(5) cat take_add)
  have bnd': "\<forall>b \<in> set (handedOut ?r'). length b \<le> n"
    using bnd by (auto simp: batchStep_fields(5))
  from pc' ent' pre' len' cat' bnd' show ?thesis
    unfolding batchInv_def using batchStep_fields(3) [of st w wl n i r] by blast
qed

lemma batchInv_initial: "batchInv st w wl n 0 initialRun"
  by (simp add: batchInv_def initialRun_def orderedResults_def)

subsection \<open>The concurrent loop without cancellation, and with it\<close>

lemma ordered_from_numbered:
  assumes "\<forall>j. 1 \<le> j \<and> j \<le> m \<longrightarrow> f j = g (j, wl ! (j - 1))" and "m \<le> length wl"
  shows "List.map_filter f [1..<m + 1] = List.map_filter g (take m (numbered wl))"
  using assms
proof (induction m)
  case 0
  then show ?case by simp
next
  case (Suc m)
  from Suc.prems have m: "m < length wl" by simp
  have "take (Suc m) (numbered wl) = take m (numbered wl) @ [(Suc m, wl ! m)]"
    using m by (simp add: take_Suc_conv_app_nth numbered_nth)
  moreover have "f (Suc m) = g (Suc m, wl ! m)"
    using Suc.prems(1) by (metis One_nat_def Suc_le_mono diff_Suc_1 le0 le_refl)
  moreover have "List.map_filter f [1..<m + 1] = List.map_filter g (take m (numbered wl))"
    using Suc.prems by (intro Suc.IH) auto
  ultimately show ?case
    by (simp add: map_filter_app split: option.splits)
qed

lemma fullInv_step:
  assumes all: "\<forall>c \<in> set (numbered wl). rowOpt st w c \<noteq> None"
    and binv: "batchInv st w wl n i r" and inv: "fullInv st w wl i r" and i: "i < length wl"
  shows "fullInv st w wl (i + n) (batchStep st w wl n i r)"
proof -
  let ?cs = "take n (drop i (numbered wl))"
  let ?r' = "batchStep st w wl n i r"
  let ?m = "min (i + n) (length wl)"
  from inv i have pc: "processedCount r = i"
    and ent: "\<And>j. 1 \<le> j \<Longrightarrow> j \<le> i \<Longrightarrow> resultMap r j = rowOpt st w (j, wl ! (j - 1))"
    and dis: "\<And>k. k < length (displays r) \<Longrightarrow>
          displays r ! k = List.map_filter (rowOpt st w) (concat (take (Suc k) (handedOut r)))"
    by (auto simp: fullInv_def)
  from binv have len: "length (displays r) = length (handedOut r)"
    and cat: "concat (handedOut r) = take i (numbered wl)"
    by (auto simp: batchInv_def)
  have "\<forall>c \<in> set ?cs. rowOpt st w c \<noteq> None"
    using all by (meson in_set_dropD in_set_takeD)
  then have "length (List.map_filter (rowOpt st w) ?cs) = length ?cs"
    by (rule map_filter_all_Some)
  moreover have "length ?cs = min n (length wl - i)" by simp
  ultimately have "processedCount ?r' = i + min n (length wl - i)"
    using pc by (simp only: batchStep_fields(2))
  moreover from i have "i + min n (length wl - i) = ?m" by arith
  ultimately have pc': "processedCount ?r' = ?m"
    by simp
  have ent': "\<forall>j. 1 \<le> j \<and> j \<le> ?m \<longrightarrow> resultMap ?r' j = rowOpt st w (j, wl ! (j - 1))"
  proof (intro allI impI)
    fix j assume j: "1 \<le> j \<and> j \<le> ?m"
    show "resultMap ?r' j = rowOpt st w (j, wl ! (j - 1))"
    proof (cases "j \<le> i")
      case True
      then have "j \<notin> fst ` set ?cs" using in_calls [of _ n i wl] by auto
      with ent [of j] j True show ?thesis by (simp add: batchStep_fields(1))
    next
      case False
      with j have "(j, wl ! (j - 1)) \<in> set ?cs" by (simp add: in_calls)
      then have mem: "j \<in> fst ` set ?cs" by force
      from j have "(j, wl ! (j - 1)) \<in> set (numbered wl)" by (simp add: in_numbered)
      with all obtain row where "rowOpt st w (j, wl ! (j - 1)) = Some row" by fastforce
      with mem show ?thesis by (simp add: batchStep_fields(1))
    qed
  qed
  have new: "shown ?r' = List.map_filter (rowOpt st w) (take (i + n) (numbered wl))"
  proof -
    have "shown ?r' = List.map_filter (resultMap ?r') [1..<?m + 1]"
      by (simp add: batchStep_fields(3) orderedResults_def pc')
    also have "\<dots> = List.map_filter (rowOpt st w) (take ?m (numbered wl))"
      using ent' by (intro ordered_from_numbered) auto
    also have "take ?m (numbered wl) = take (i + n) (numbered wl)"
      by (simp add: min_def)
    finally show ?thesis .
  qed
  have dis': "\<forall>k < length (displays ?r').
      displays ?r' ! k = List.map_filter (rowOpt st w) (concat (take (Suc k) (handedOut ?r')))"
  proof (intro allI impI)
    fix k assume k: "k < length (displays ?r')"
    show "displays ?r' ! k = List.map_filter (rowOpt st w) (concat (take (Suc k) (handedOut ?r')))"
    proof (cases "k < length (displays r)")
      case True
      with dis [OF True] len show ?thesis
        by (simp add: batchStep_fields(4,5) nth_append)
    next
      case False
      with k have "k = length (displays r)" by (simp add: batchStep_fields(4))
      with len new cat show ?thesis
        by (simp add: batchStep_fields(4,5) nth_append take_add)
    qed
  qed
  from pc' ent' dis' show ?thesis
    unfolding fullInv_def by blast
qed

lemma fullInv_initial: "fullInv st w wl 0 initialRun"
  by (simp add: fullInv_def initialRun_def)




subsection \<open>The sequential loop\<close>

lemma recordResult_fields:
  "shown (recordResult r c row) = shown r @ [row]"
  "requestCount (recordResult r c row) = fst c"
  "displays (recordResult r c row) = displays r @ [shown r @ [row]]"
  "handedOut (recordResult r c row) = handedOut r @ [[c]]"
  by (simp_all add: recordResult_def)

lemma leaveLoop_fields:
  "shown (leaveLoop r c e) = shown r"
  "displays (leaveLoop r c e) = displays r"
  "handedOut (leaveLoop r c e) = handedOut r @ [[c]]"
  by (simp_all add: leaveLoop_def)

lemma seqLoop_Cons:
  "seqLoop st w (word # rest) r =
     (if signalAborted w (requestCount r) then r
      else case rowOpt st w (requestCount r + 1, word) of
             None \<Rightarrow> leaveLoop r (requestCount r + 1, word)
                      (case sendSingleRequest st w (requestCount r + 1) word of Rejected e \<Rightarrow> e)
           | Some row \<Rightarrow> seqLoop st w rest (recordResult r (requestCount r + 1, word) row))"
  by (cases "sendSingleRequest st w (requestCount r + 1) word") (simp_all add: rowOpt_def)

lemma seqLoop_shown:
  "shown (seqLoop st w ws r)
     = shown r @ List.map_filter (rowOpt st w)
                   (takeWhile (proceeds st w) (enumerate (requestCount r + 1) ws))"
proof (induction ws arbitrary: r)
  case Nil
  then show ?case by simp
next
  case (Cons word rest)
  show ?case
  proof (cases "signalAborted w (requestCount r)")
    case True
    then show ?thesis by (simp add: proceeds_def)
  next
    case False
    show ?thesis
    proof (cases "rowOpt st w (requestCount r + 1, word)")
      case None
      with False show ?thesis
        by (simp only: seqLoop_Cons) (simp add: proceeds_def leaveLoop_fields)
    next
      case (Some row)
      with False Cons.IH [of "recordResult r (requestCount r + 1, word) row"] show ?thesis
        by (simp only: seqLoop_Cons) (simp add: proceeds_def recordResult_fields)
    qed
  qed
qed

lemma seqLoop_displays:
  "\<forall>d \<in> set (displays r). prefix d (shown r) \<Longrightarrow>
   \<forall>d \<in> set (displays (seqLoop st w ws r)). prefix d (shown (seqLoop st w ws r))"
proof (induction ws arbitrary: r)
  case Nil
  then show ?case by simp
next
  case (Cons word rest)
  show ?case
  proof (cases "signalAborted w (requestCount r)")
    case True
    with Cons.prems show ?thesis by simp
  next
    case False
    show ?thesis
    proof (cases "rowOpt st w (requestCount r + 1, word)")
      case None
      with False Cons.prems show ?thesis
        by (simp only: seqLoop_Cons) (simp add: leaveLoop_fields)
    next
      case (Some row)
      have "\<forall>d \<in> set (displays (recordResult r (requestCount r + 1, word) row)).
              prefix d (shown (recordResult r (requestCount r + 1, word) row))"
        using Cons.prems by (auto simp: recordResult_fields)
      from Cons.IH [OF this] False Some show ?thesis
        by (simp only: seqLoop_Cons) simp
    qed
  qed
qed

lemma seqLoop_handedOut:
  "(\<forall>b \<in> set (handedOut r). length b \<le> 1 \<and> (\<forall>c \<in> set b. rowOpt st w c \<noteq> None)) \<Longrightarrow>
   (\<forall>b \<in> set (handedOut (seqLoop st w ws r)). length b \<le> 1) \<and>
   noCallAfterAbort st w (seqLoop st w ws r)"
proof (induction ws arbitrary: r)
  case Nil
  then show ?case by (auto simp: noCallAfterAbort_def)
next
  case (Cons word rest)
  show ?case
  proof (cases "signalAborted w (requestCount r)")
    case True
    with Cons.prems show ?thesis by (auto simp: noCallAfterAbort_def)
  next
    case False
    show ?thesis
    proof (cases "rowOpt st w (requestCount r + 1, word)")
      case None
      have "noCallAfterAbort st w (leaveLoop r (requestCount r + 1, word) e)" for e
        using Cons.prems by (auto simp: noCallAfterAbort_def leaveLoop_fields nth_append)
      with None False Cons.prems show ?thesis
        by (simp only: seqLoop_Cons) (auto simp: leaveLoop_fields)
    next
      case (Some row)
      have "\<forall>b \<in> set (handedOut (recordResult r (requestCount r + 1, word) row)).
              length b \<le> 1 \<and> (\<forall>c \<in> set b. rowOpt st w c \<noteq> None)"
        using Cons.prems Some by (auto simp: recordResult_fields)
      from Cons.IH [OF this] False Some show ?thesis
        by (simp only: seqLoop_Cons) simp
    qed
  qed
qed

subsection \<open>The run\<close>


lemma noCancellation_rowOpt:
  assumes "noCancellation w"
  shows "rowOpt st w c \<noteq> None"
proof
  assume "rowOpt st w c = None"
  then obtain e where "sendSingleRequest st w (fst c) (snd c) = Rejected e"
    by (auto simp: rowOpt_None)
  from send_Rejected [OF this] have te: "tryError st w (fst c) (snd c) = Some e"
    and ab: "errName e = ''AbortError''" by auto
  show False
  proof (cases "JSON_parse (if variables st = [] then ''{}'' else variables st)")
    case None
    with te ab show ?thesis by (auto simp: tryError_def)
  next
    case (Some vars)
    show ?thesis
    proof (cases "useProxy st")
      case True
      with Some te have "proxyFetch w (fst c) (fetchCall st \<lparr> rb_query = currentQuery st (snd c), rb_variables = vars \<rparr>) = Inl e"
        by (auto simp: tryError_def split: sum.splits)
      with assms ab show ?thesis unfolding noCancellation_def by blast
    next
      case False
      with Some te have "directFetch w (fst c) (fetchCall st \<lparr> rb_query = currentQuery st (snd c), rb_variables = vars \<rparr>) = Inl e"
        by (auto simp: tryError_def split: sum.splits)
      with assms ab show ?thesis unfolding noCancellation_def by blast
    qed
  qed
qed

lemma startFuzzing_seq:
  "startable st \<Longrightarrow> threads st = 1 \<Longrightarrow>
   startFuzzing st w = Some (finish st (seqLoop st w (parseWordlist (wordlistText st)) initialRun))"
  by (auto simp: startFuzzing_def startable_def Let_def)

lemma startFuzzing_conc:
  "startable st \<Longrightarrow> 1 < threads st \<Longrightarrow>
   startFuzzing st w =
     map_option (finish st) (batchLoop st w (parseWordlist (wordlistText st)) (nat (threads st)) 0 initialRun)"
  by (auto simp: startFuzzing_def startable_def Let_def)

lemma finish_fields:
  "isRunning (fst (finish st r)) = False" "results (fst (finish st r)) = shown r"
  "query (fst (finish st r)) = query st" "replacementMarker (fst (finish st r)) = replacementMarker st"
  "wordlistText (fst (finish st r)) = wordlistText st" "variables (fst (finish st r)) = variables st"
  "threads (fst (finish st r)) = threads st" "delayMs (fst (finish st r)) = delayMs st"
  "snd (finish st r) = r"
  by (simp_all add: finish_def)

lemma conc_loop:
  assumes "0 < n"
  shows "\<exists>i' r'. batchLoop st w wl n 0 initialRun = Some r' \<and> batchInv st w wl n i' r' \<and>
           (length wl \<le> i' \<or> signalAborted w i')"
  using batchLoop_rule [where I = "batchInv st w wl n", OF assms batchInv_initial] batchInv_step
  by blast

lemma conc_loop_full:
  assumes "0 < n" and "\<forall>c \<in> set (numbered wl). rowOpt st w c \<noteq> None"
  shows "\<exists>i' r'. batchLoop st w wl n 0 initialRun = Some r' \<and> batchInv st w wl n i' r' \<and>
           fullInv st w wl i' r' \<and> (length wl \<le> i' \<or> signalAborted w i')"
proof -
  have "\<exists>i' r'. batchLoop st w wl n 0 initialRun = Some r' \<and>
          (batchInv st w wl n i' r' \<and> fullInv st w wl i' r') \<and> (length wl \<le> i' \<or> signalAborted w i')"
  proof (rule batchLoop_rule [where I = "\<lambda>i r. batchInv st w wl n i r \<and> fullInv st w wl i r"])
    show "0 < n" by (rule assms(1))
    show "batchInv st w wl n 0 initialRun \<and> fullInv st w wl 0 initialRun"
      by (simp add: batchInv_initial fullInv_initial)
  next
    fix i r assume "batchInv st w wl n i r \<and> fullInv st w wl i r" and "i < length wl"
    then show "batchInv st w wl n (i + n) (batchStep st w wl n i r) \<and>
               fullInv st w wl (i + n) (batchStep st w wl n i r)"
      using batchInv_step fullInv_step [OF assms(2)] by blast
  qed
  then show ?thesis by blast
qed


lemma batchInv_rows:
  assumes "batchInv st w wl n i r" and "row \<in> set (shown r)"
  shows "\<exists>c \<in> set (numbered wl). rowOpt st w c = Some row"
proof -
  from assms have "row \<in> set (orderedResults r)" by (simp add: batchInv_def)
  from set_orderedResults [OF this] obtain j where "resultMap r j = Some row" ..
  with assms(1) have "1 \<le> j \<and> j \<le> length wl \<and> rowOpt st w (j, wl ! (j - 1)) = Some row"
    by (simp add: batchInv_def)
  moreover from this have "(j, wl ! (j - 1)) \<in> set (numbered wl)" by (simp add: in_numbered)
  ultimately show ?thesis by blast
qed

lemma seq_rows:
  assumes "row \<in> set (shown (seqLoop st w wl initialRun))"
  shows "\<exists>c \<in> set (numbered wl). rowOpt st w c = Some row"
proof -
  from assms obtain c where "c \<in> set (takeWhile (proceeds st w) (enumerate 1 wl))"
    and "rowOpt st w c = Some row"
    by (auto simp: seqLoop_shown initialRun_def set_map_filter_iff)
  then show ?thesis
    by (auto simp: numbered_def dest: set_takeWhileD)
qed

text \<open>What every run has, in either mode.\<close>

lemma run_facts:
  assumes "startable st" and "1 \<le> threads st"
  shows "\<exists>r. startFuzzing st w = Some (finish st r) \<and>
           (\<forall>row \<in> set (shown r). \<exists>c \<in> set (numbered (parseWordlist (wordlistText st))). rowOpt st w c = Some row) \<and>
           (\<forall>d \<in> set (displays r). prefix d (shown r)) \<and>
           (\<forall>b \<in> set (handedOut r). length b \<le> nat (threads st))"
proof (cases "threads st = 1")
  case True
  let ?r = "seqLoop st w (parseWordlist (wordlistText st)) initialRun"
  have a: "\<forall>d \<in> set (displays ?r). prefix d (shown ?r)"
    by (rule seqLoop_displays) (simp add: initialRun_def)
  have b: "\<forall>b \<in> set (handedOut ?r). length b \<le> 1"
    using seqLoop_handedOut [of initialRun st w] by (simp add: initialRun_def)
  from startFuzzing_seq [OF assms(1) True] a b seq_rows True show ?thesis
    by auto
next
  case False
  with assms have n: "1 < threads st" by simp
  then have "0 < nat (threads st)" by simp
  from conc_loop [OF this] obtain i' r' where
    "batchLoop st w (parseWordlist (wordlistText st)) (nat (threads st)) 0 initialRun = Some r'"
    and inv: "batchInv st w (parseWordlist (wordlistText st)) (nat (threads st)) i' r'" by blast
  with startFuzzing_conc [OF assms(1) n] have "startFuzzing st w = Some (finish st r')" by simp
  moreover from inv have "\<forall>d \<in> set (displays r'). prefix d (shown r')"
    and "\<forall>b \<in> set (handedOut r'). length b \<le> nat (threads st)"
    by (auto simp: batchInv_def)
  ultimately show ?thesis using batchInv_rows [OF inv] by blast
qed

lemma finish_eq: "finish st r = (st', r') \<Longrightarrow> r' = r \<and> st' = fst (finish st r)"
  by (auto simp: finish_def)



lemma conc_complete:
  assumes st: "startable st" and n: "1 < threads st"
    and go: "\<forall>i. \<not> signalAborted w i"
    and all: "\<forall>c \<in> set (numbered (parseWordlist (wordlistText st))). rowOpt st w c \<noteq> None"
  shows "\<exists>r. startFuzzing st w = Some (finish st r) \<and>
           concat (handedOut r) = numbered (parseWordlist (wordlistText st)) \<and>
           (\<forall>b \<in> set (handedOut r). length b \<le> nat (threads st)) \<and>
           length (displays r) = length (handedOut r) \<and>
           (\<forall>k < length (displays r).
               displays r ! k = List.map_filter (rowOpt st w) (concat (take (Suc k) (handedOut r)))) \<and>
           shown r = List.map_filter (rowOpt st w) (numbered (parseWordlist (wordlistText st)))"
proof -
  let ?wl = "parseWordlist (wordlistText st)"
  from n have "0 < nat (threads st)" by simp
  from conc_loop_full [OF this all] go obtain i' r' where
    run: "batchLoop st w ?wl (nat (threads st)) 0 initialRun = Some r'"
    and binv: "batchInv st w ?wl (nat (threads st)) i' r'"
    and finv: "fullInv st w ?wl i' r'" and i': "length ?wl \<le> i'" by blast
  from binv i' have cat: "concat (handedOut r') = numbered ?wl"
    by (simp add: batchInv_def)
  from binv have bnd: "\<forall>b \<in> set (handedOut r'). length b \<le> nat (threads st)"
    and len: "length (displays r') = length (handedOut r')"
    and sh: "shown r' = orderedResults r'"
    by (auto simp: batchInv_def)
  from finv have dis: "\<forall>k < length (displays r').
      displays r' ! k = List.map_filter (rowOpt st w) (concat (take (Suc k) (handedOut r')))"
    by (simp add: fullInv_def)
  from finv i' have pc: "processedCount r' = length ?wl"
    and ent: "\<forall>j. 1 \<le> j \<and> j \<le> length ?wl \<longrightarrow> resultMap r' j = rowOpt st w (j, ?wl ! (j - 1))"
    by (auto simp: fullInv_def min_def)
  have "shown r' = List.map_filter (resultMap r') [1..<length ?wl + 1]"
    by (simp add: sh orderedResults_def pc)
  also have "\<dots> = List.map_filter (rowOpt st w) (take (length ?wl) (numbered ?wl))"
    using ent by (intro ordered_from_numbered) auto
  finally have all_rows: "shown r' = List.map_filter (rowOpt st w) (numbered ?wl)" by simp
  from startFuzzing_conc [OF st n] run have "startFuzzing st w = Some (finish st r')" by simp
  with cat bnd len dis all_rows show ?thesis by blast
qed


lemma map_requestNum_rows:
  "\<forall>c \<in> set cs. rowOpt st w c \<noteq> None \<Longrightarrow>
   map requestNum (List.map_filter (rowOpt st w) cs) = map fst cs"
proof (induction cs)
  case Nil
  then show ?case by simp
next
  case (Cons c cs)
  then obtain row where row: "rowOpt st w c = Some row" by auto
  from rowOpt_requestNum [OF row] row Cons show ?case by simp
qed

lemma concat_take_prefix: "concat (take k xss) = take (length (concat (take k xss))) (concat xss)"
proof -
  have "concat xss = concat (take k xss) @ concat (drop k xss)"
    by (metis append_take_drop_id concat_append)
  then show ?thesis by (metis append_eq_conv_conj)
qed

lemma map_fst_take_numbered:
  assumes "m \<le> length wl"
  shows "map fst (take m (numbered wl)) = [1..<m + 1]"
proof -
  have "map fst (take m (numbered wl)) = take m [1..<1 + length wl]"
    by (simp only: numbered_def take_map [symmetric] map_fst_enumerate)
  also from assms have "\<dots> = [1..<1 + m]"
    by (intro take_upt) simp
  finally show ?thesis by (simp only: add.commute)
qed




section \<open>Properties of a run\<close>

lemma run_result:
  assumes "startFuzzing st w = Some (finish st r)" and "startFuzzing st w = Some (finish st r')"
  shows "r' = r"
  using assms by (auto simp: finish_def)

text \<open>
  Claim C1. In the concurrent branch, with a thread count \<open>N > 1\<close>, a wordlist of length
  \<open>L\<close> and no cancellation, the run returns; the groups of requests handed out, put end
  to end, are the \<open>L\<close> words with the request numbers 1 to \<open>L\<close>, and no group has more than
  \<open>N\<close> requests; there is one display per batch, and the display after a batch is the
  list of the rows of all requests handed out up to that batch, one row per request, with
  the request numbers ascending from 1; the final result list has the request numbers 1
  to \<open>L\<close>. The order in which the requests of a batch settle is no input of the loop:
  \<open>Promise.allSettled\<close> hands the outcomes over in the order of the calls.
\<close>

theorem bounded_concurrency:
  assumes st: "startable st" and n: "1 < threads st" and nc: "noCancellation w"
    and wl: "wl = parseWordlist (wordlistText st)"
  shows "\<exists>st' r. startFuzzing st w = Some (st', r) \<and>
           concat (handedOut r) = numbered wl \<and>
           length (concat (handedOut r)) = length wl \<and>
           (\<forall>b \<in> set (handedOut r). length b \<le> nat (threads st)) \<and>
           length (displays r) = length (handedOut r) \<and>
           (\<forall>k < length (displays r).
               displays r ! k = List.map_filter (rowOpt st w) (concat (take (Suc k) (handedOut r))) \<and>
               length (displays r ! k) = length (concat (take (Suc k) (handedOut r))) \<and>
               map requestNum (displays r ! k) = [1..<length (concat (take (Suc k) (handedOut r))) + 1]) \<and>
           results st' = List.map_filter (rowOpt st w) (numbered wl) \<and>
           map requestNum (results st') = [1..<length wl + 1]"
proof -
  from nc have go: "\<forall>i. \<not> signalAborted w i" by (simp add: noCancellation_def)
  have some: "\<And>c. rowOpt st w c \<noteq> None" by (rule noCancellation_rowOpt [OF nc])
  then have all: "\<forall>c \<in> set (numbered (parseWordlist (wordlistText st))). rowOpt st w c \<noteq> None"
    by simp
  from conc_complete [OF st n go all] obtain r where
    run: "startFuzzing st w = Some (finish st r)"
    and cat: "concat (handedOut r) = numbered wl"
    and bnd: "\<forall>b \<in> set (handedOut r). length b \<le> nat (threads st)"
    and len: "length (displays r) = length (handedOut r)"
    and dis: "\<And>k. k < length (displays r) \<Longrightarrow>
               displays r ! k = List.map_filter (rowOpt st w) (concat (take (Suc k) (handedOut r)))"
    and sh: "shown r = List.map_filter (rowOpt st w) (numbered wl)"
    unfolding wl by blast
  have rows: "\<And>cs. length (List.map_filter (rowOpt st w) cs) = length cs"
    using some by (intro map_filter_all_Some) simp
  have nums: "\<And>cs. map requestNum (List.map_filter (rowOpt st w) cs) = map fst cs"
    using some by (intro map_requestNum_rows) simp
  have each: "\<forall>k < length (displays r).
               displays r ! k = List.map_filter (rowOpt st w) (concat (take (Suc k) (handedOut r))) \<and>
               length (displays r ! k) = length (concat (take (Suc k) (handedOut r))) \<and>
               map requestNum (displays r ! k) = [1..<length (concat (take (Suc k) (handedOut r))) + 1]"
  proof (intro allI impI)
    fix k assume k: "k < length (displays r)"
    let ?cs = "concat (take (Suc k) (handedOut r))"
    have pre: "?cs = take (length ?cs) (numbered wl)"
      using concat_take_prefix [of "Suc k" "handedOut r"] by (simp only: cat)
    then have "length ?cs = length (take (length ?cs) (numbered wl))"
      by simp
    then have "length ?cs \<le> length wl"
      by (simp only: length_take length_numbered)
    from map_fst_take_numbered [OF this] pre have "map fst ?cs = [1..<length ?cs + 1]"
      by simp
    with dis [OF k] rows [of ?cs] nums [of ?cs]
    show "displays r ! k = List.map_filter (rowOpt st w) ?cs \<and>
          length (displays r ! k) = length ?cs \<and>
          map requestNum (displays r ! k) = [1..<length ?cs + 1]"
      by simp
  qed
  have "map fst (numbered wl) = [1..<length wl + 1]"
    using map_fst_take_numbered [of "length wl" wl] by simp
  with sh nums [of "numbered wl"] have fin: "map requestNum (shown r) = [1..<length wl + 1]"
    by simp
  from cat have lencat: "length (concat (handedOut r)) = length wl" by simp
  have res: "results (fst (finish st r)) = shown r" by (simp add: finish_fields)
  from run have run': "startFuzzing st w = Some (fst (finish st r), r)"
    by (simp add: finish_def)
  from res sh have r1: "results (fst (finish st r)) = List.map_filter (rowOpt st w) (numbered wl)"
    by (simp only:)
  from res fin have r2: "map requestNum (results (fst (finish st r))) = [1..<length wl + 1]"
    by (simp only:)
  from run' cat lencat bnd len each r1 r2 show ?thesis by blast
qed


theorem bounded_concurrency_witness:
  "\<exists>st' r. startFuzzing (sampleFuzzer \<lparr> threads := 2, wordlistText := ''a'' @ [CHR 0x0A] @ ''b'' @ [CHR 0x0A] @ ''c'' \<rparr>) sampleWorld
              = Some (st', r) \<and>
     length (concat (handedOut r)) = 3 \<and>
     (\<forall>b \<in> set (handedOut r). length b \<le> 2) \<and>
     map requestNum (results st') = [1, 2, 3]"
proof -
  let ?S = "sampleFuzzer \<lparr> threads := 2, wordlistText := ''a'' @ [CHR 0x0A] @ ''b'' @ [CHR 0x0A] @ ''c'' \<rparr>"
  have a: "startable ?S" by code_simp
  have b: "1 < threads ?S" by simp
  have c: "noCancellation sampleWorld" by (simp add: noCancellation_def sampleWorld_def)
  have d: "[''a'', ''b'', ''c''] = parseWordlist (wordlistText ?S)" by code_simp
  have e: "[1..<length [''a'', ''b'', ''c''] + 1] = [1::nat, 2, 3]" by code_simp
  from bounded_concurrency [OF a b c d] obtain st' r where
    r1: "startFuzzing ?S sampleWorld = Some (st', r)"
    and r2: "length (concat (handedOut r)) = length [''a'', ''b'', ''c'']"
    and r3: "\<forall>b \<in> set (handedOut r). length b \<le> nat (threads ?S)"
    and r4: "map requestNum (results st') = [1..<length [''a'', ''b'', ''c''] + 1]"
    by blast
  from r2 have r2': "length (concat (handedOut r)) = 3" by simp
  from r3 have r3': "\<forall>b \<in> set (handedOut r). length b \<le> 2" by simp
  note r4' = r4 [unfolded e]
  show ?thesis
    by (rule exI [of _ st'], rule exI [of _ r]) (intro conjI r1 r2' r3' r4')
qed





lemma run_settings:
  assumes "1 \<le> threads st" and "startFuzzing st w = Some (st', r)"
  shows "(\<forall>b \<in> set (handedOut r). length b \<le> nat (threads st)) \<and>
         threads st' = threads st \<and> delayMs st' = delayMs st"
proof (cases "startable st")
  case False
  with assms(2) have "st' = st \<and> r = initialRun"
    by (auto simp: startFuzzing_def startable_def Let_def split: if_splits)
  then show ?thesis by (simp add: initialRun_def)
next
  case True
  from run_facts [OF True assms(1), of w] obtain r0 where
    r0: "startFuzzing st w = Some (finish st r0)"
    and bnd: "\<forall>b \<in> set (handedOut r0). length b \<le> nat (threads st)" by blast
  from r0 assms(2) have "r = r0" and "st' = fst (finish st r0)" by (auto simp: finish_def)
  with bnd show ?thesis by (simp add: finish_fields)
qed

text \<open>
  Claim C10. Starting from the mounted component, after any sequence of inputs the thread
  count is an integer from 1 to 50 and the delay is an integer that is not negative; a
  run changes neither, and no group of requests handed out without waiting has more than
  50 requests.
\<close>

theorem settings_in_range:
  assumes "st = foldl onChange (initialFuzzer config) evs"
  shows "1 \<le> threads st \<and> threads st \<le> 50 \<and> 0 \<le> delayMs st \<and>
         (\<forall>w st' r. startFuzzing st w = Some (st', r) \<longrightarrow>
            (\<forall>b \<in> set (handedOut r). length b \<le> 50) \<and>
            1 \<le> threads st' \<and> threads st' \<le> 50 \<and> 0 \<le> delayMs st')"
proof -
  have "1 \<le> threads (initialFuzzer config) \<and> threads (initialFuzzer config) \<le> 50 \<and>
        0 \<le> delayMs (initialFuzzer config)"
    by (simp add: initialFuzzer_def)
  from settings_invariant [OF this, of evs] assms
  have rng: "1 \<le> threads st" "threads st \<le> 50" "0 \<le> delayMs st" by simp_all
  have "\<forall>w st' r. startFuzzing st w = Some (st', r) \<longrightarrow>
            (\<forall>b \<in> set (handedOut r). length b \<le> 50) \<and>
            1 \<le> threads st' \<and> threads st' \<le> 50 \<and> 0 \<le> delayMs st'"
  proof (intro allI impI)
    fix w st' r assume "startFuzzing st w = Some (st', r)"
    from run_settings [OF rng(1) this] rng
    show "(\<forall>b \<in> set (handedOut r). length b \<le> 50) \<and>
            1 \<le> threads st' \<and> threads st' \<le> 50 \<and> 0 \<le> delayMs st'"
      by fastforce
  qed
  with rng show ?thesis by blast
qed

theorem settings_in_range_witness:
  "threads (foldl onChange (initialFuzzer \<lparr> cfg_url = [], cfg_headersRaw = [], cfg_rawBody = [],
              cfg_query = [], cfg_variables = ''{}'', cfg_useProxy = True,
              cfg_proxyUrl = ''http://localhost:8787/forward'' \<rparr>)
            [OtherEdit (\<lambda>s. sampleFuzzer), ThreadsChanged ''999'', DelayChanged ''-5'']) = 50 \<and>
   delayMs (foldl onChange (initialFuzzer \<lparr> cfg_url = [], cfg_headersRaw = [], cfg_rawBody = [],
              cfg_query = [], cfg_variables = ''{}'', cfg_useProxy = True,
              cfg_proxyUrl = ''http://localhost:8787/forward'' \<rparr>)
            [OtherEdit (\<lambda>s. sampleFuzzer), ThreadsChanged ''999'', DelayChanged ''-5'']) = 0 \<and>
   (\<exists>st' r. startFuzzing (foldl onChange (initialFuzzer \<lparr> cfg_url = [], cfg_headersRaw = [], cfg_rawBody = [],
              cfg_query = [], cfg_variables = ''{}'', cfg_useProxy = True,
              cfg_proxyUrl = ''http://localhost:8787/forward'' \<rparr>)
            [OtherEdit (\<lambda>s. sampleFuzzer), ThreadsChanged ''999'', DelayChanged ''-5'']) sampleWorld = Some (st', r) \<and>
        (\<forall>b \<in> set (handedOut r). length b \<le> 50) \<and> threads st' \<le> 50)"
proof -
  let ?evs = "[OtherEdit (\<lambda>s. sampleFuzzer), ThreadsChanged ''999'', DelayChanged ''-5'']"
  let ?st = "foldl onChange (initialFuzzer \<lparr> cfg_url = [], cfg_headersRaw = [], cfg_rawBody = [],
              cfg_query = [], cfg_variables = ''{}'', cfg_useProxy = True,
              cfg_proxyUrl = ''http://localhost:8787/forward'' \<rparr>) ?evs"
  have t: "threads ?st = 50" by code_simp
  have d: "delayMs ?st = 0" by code_simp
  have a: "startable ?st" by code_simp
  from t have b: "1 \<le> threads ?st" by simp
  from run_facts [OF a b, of sampleWorld] obtain r0 where
    run: "startFuzzing ?st sampleWorld = Some (fst (finish ?st r0), r0)"
    by (auto simp: finish_def)
  from settings_in_range [OF refl, of _ ?evs] run
  have "(\<forall>b \<in> set (handedOut r0). length b \<le> 50) \<and> threads (fst (finish ?st r0)) \<le> 50"
    by blast
  with run have "\<exists>st' r. startFuzzing ?st sampleWorld = Some (st', r) \<and>
        (\<forall>b \<in> set (handedOut r). length b \<le> 50) \<and> threads st' \<le> 50"
    by blast
  with t d show ?thesis by blast
qed




section \<open>Properties of the forwarding proxy\<close>

lemma isError_key:
  "units ''isError'' \<noteq> units ''status''" "units ''isError'' \<noteq> units ''statusText''"
  "units ''isError'' \<noteq> units ''headers''" "units ''isError'' \<noteq> units ''body''"
  "units ''isError'' \<noteq> units ''error''"
  by code_simp+

lemma status_key:
  "units ''status'' \<noteq> units ''statusText''" "units ''status'' \<noteq> units ''headers''"
  "units ''status'' \<noteq> units ''body''" "units ''status'' \<noteq> units ''error''"
  "units ''status'' \<noteq> units ''isError''"
  by code_simp+

lemma error_key:
  "units ''error'' \<noteq> units ''statusText''" "units ''error'' \<noteq> units ''headers''"
  "units ''error'' \<noteq> units ''body''" "units ''error'' \<noteq> units ''status''"
  "units ''error'' \<noteq> units ''isError''"
  by code_simp+

lemma forwardResult_no_isError: "member (forwardResult res) ''isError'' = None"
  by (simp add: forwardResult_def member_def isError_key)

lemma rejectRequest_no_isError:
  "rejectRequest req = Some early \<Longrightarrow> px_json early = Some v \<Longrightarrow> member v ''isError'' = None"
  by (auto simp: rejectRequest_def member_def isError_key split: if_splits)

lemma proxy_mjs_never_isError:
  "px_json (proxyHandler pw req) = Some v \<Longrightarrow> member v ''isError'' = None"
proof (cases "rejectRequest req")
  case (Some early)
  assume "px_json (proxyHandler pw req) = Some v"
  with Some rejectRequest_no_isError [OF Some] show ?thesis
    by (simp add: proxyHandler_def)
next
  case None
  assume v: "px_json (proxyHandler pw req) = Some v"
  show ?thesis
  proof (cases "tryForward pw req")
    case (Inl e)
    with None v show ?thesis
      by (auto simp: proxyHandler_def member_def isError_key)
  next
    case (Inr res)
    with None v forwardResult_no_isError [of res] show ?thesis
      by (auto simp: proxyHandler_def)
  qed
qed

text \<open>
  Claim C5. The claim says that the success envelope of the proxy has an \<open>isError\<close> member
  and that an exception yields a 500 response with \<open>error\<close>, \<open>isError: true\<close> and
  \<open>status: 0\<close>. In \<open>server/proxy.mjs\<close> the envelope of a 404 answer of the target has the
  four members \<open>status\<close>, \<open>statusText\<close>, \<open>headers\<close> and \<open>body\<close> only, and the 500
  response to a refused connection has the member \<open>error\<close> only.
\<close>

theorem proxy_mjs_envelope:
  "proxyHandler sampleProxyWorld sampleProxyRequest =
     \<lparr> px_statusCode = 200,
       px_json = Some (JObject [(units ''status'', JNumber ''404''),
                                (units ''statusText'', JString (units ''Not Found'')),
                                (units ''headers'', JObject []),
                                (units ''body'', JString (units ''no''))]) \<rparr> \<and>
   proxyHandler refusingProxyWorld sampleProxyRequest =
     \<lparr> px_statusCode = 500,
       px_json = Some (JObject [(units ''error'', JString (units ''Connection refused''))]) \<rparr>"
  by code_simp

text \<open>The second proxy script answers as the claim says.\<close>

lemma proxyHandlerDebug_envelope:
  assumes "rejectRequest req = None"
  shows "case tryForward pw req of
           Inr res \<Rightarrow>
             px_statusCode (proxyHandlerDebug pw req) = 200 \<and>
             (\<exists>v. px_json (proxyHandlerDebug pw req) = Some v \<and>
                  member v ''isError'' =
                    Some (JBool (\<not> (200 \<le> (case up_statusCode res of None \<Rightarrow> 0 | Some c \<Rightarrow> c) \<and>
                                     (case up_statusCode res of None \<Rightarrow> 0 | Some c \<Rightarrow> c) < 300))) \<and>
                  member v ''status'' = Some (JNumber (showNat (case up_statusCode res of None \<Rightarrow> 0 | Some c \<Rightarrow> c))))
         | Inl e \<Rightarrow>
             px_statusCode (proxyHandlerDebug pw req) = 500 \<and>
             (\<exists>v. px_json (proxyHandlerDebug pw req) = Some v \<and>
                  member v ''error'' = Some (JString (units (errorText e))) \<and>
                  member v ''isError'' = Some (JBool True) \<and>
                  member v ''status'' = Some (JNumber ''0''))"
proof (cases "tryForward pw req")
  case (Inl e)
  with assms show ?thesis
    by (simp add: proxyHandlerDebug_def member_def isError_key status_key error_key)
next
  case (Inr res)
  with assms show ?thesis
    by (simp add: proxyHandlerDebug_def forwardResultDebug_def Let_def member_def isError_key status_key error_key not_le not_less)
qed

end
